theory Spec2Isabelle
  imports Main "HOL-Library.Word" "HOL-Library.Char_ord" "HOL-Library.List_Lexorder"
    "HOL-Library.AList"
begin

unbundle bit_operations_syntax

section \<open>Values, errors and results\<close>

text \<open>
  The Go program keeps decoded bencode data in \<open>interface{}\<close> values whose dynamic type
  is \<open>string\<close>, \<open>int\<close>, \<open>[]interface{}\<close> or \<open>map[string]interface{}\<close>.  A Go string
  is a byte sequence, which is what \<open>string\<close> (a list of 8-bit \<open>char\<close>) is here.  A Go map
  is modelled by an association list with pairwise distinct keys: the order of the list stands
  for the (unspecified) order in which \<open>range\<close> visits the map.  \<open>BOther\<close> stands for an
  \<open>interface{}\<close> of any other dynamic type (including \<open>nil\<close>).  A Go \<open>int\<close> has 64 bits;
  the integers of decoded values are in that range, since \<open>strconv.Atoi\<close> rejects the
  others, and no function of the model computes with them.
\<close>

datatype bvalue =
    BStr string
  | BInt int
  | BList "bvalue list"
  | BDict "(string \<times> bvalue) list"
  | BOther

text \<open>
  Errors returned as Go \<open>error\<close> values and run-time panics are both results of the model;
  the constructors named \<open>Panic...\<close> are the panics of the Go run time (index out of range,
  slice bounds out of range, failed type assertion, \<open>make\<close> with a negative length).
\<close>

datatype error =
    ErrSyntax
  | ErrRange
  | ErrUnexpectedFormat
  | ErrUnexpectedType
  | ErrEOF
  | ErrUnexpectedIndex
  | ErrInvalidPieceHash
  | PanicIndex
  | PanicSlice
  | PanicTypeAssert
  | PanicMakeSlice

type_synonym 'a result = "error + 'a"

definition is_panic :: "error \<Rightarrow> bool" where
  "is_panic e = (e = PanicIndex \<or> e = PanicSlice \<or> e = PanicTypeAssert \<or> e = PanicMakeSlice)"

section \<open>strconv.Atoi and decimal formatting\<close>

text \<open>
  \<open>unicode.IsDigit(rune(b))\<close> for a byte \<open>b\<close> is \<open>'0' <= b && b <= '9'\<close> (the Latin-1 fast
  path).  \<open>strconv.Atoi\<close> accepts an optional sign followed by at least one decimal digit and
  reports a range error outside the 64-bit \<open>int\<close>.
\<close>

definition isDigit :: "char \<Rightarrow> bool" where
  "isDigit c = (CHR ''0'' \<le> c \<and> c \<le> CHR ''9'')"

fun parseUint :: "string \<Rightarrow> nat \<Rightarrow> nat result" where
  "parseUint [] n = Inr n"
| "parseUint (c # cs) n =
     (if \<not> isDigit c then Inl ErrSyntax
      else let n1 = n * 10 + (of_char c - 48) in
        if n1 \<ge> 2 ^ 64 then Inl ErrRange else parseUint cs n1)"

definition parseInt :: "string \<Rightarrow> int result" where
  "parseInt s =
     (if s = [] then Inl ErrSyntax
      else let neg = (hd s = CHR ''-'');
               ds = (if hd s = CHR ''+'' \<or> hd s = CHR ''-'' then tl s else s)
      in if ds = [] then Inl ErrSyntax
         else case parseUint ds 0 of
           Inl e \<Rightarrow> Inl e
         | Inr un \<Rightarrow>
             if \<not> neg \<and> un \<ge> 2 ^ 63 then Inl ErrRange
             else if neg \<and> un > 2 ^ 63 then Inl ErrRange
             else Inr (if neg then - int un else int un))"

definition Atoi :: "string \<Rightarrow> int result" where
  "Atoi s = parseInt s"

definition digit_char :: "nat \<Rightarrow> char" where
  "digit_char d = ''0123456789'' ! d"

fun digits_acc :: "nat \<Rightarrow> string \<Rightarrow> string" where
  "digits_acc n acc =
     (if n < 10 then digit_char n # acc
      else digits_acc (n div 10) (digit_char (n mod 10) # acc))"

declare digits_acc.simps [simp del]

text \<open>\<open>fmt.Sprintf("%d", n)\<close> for a length and for an \<open>int\<close>.\<close>

definition fmt_nat :: "nat \<Rightarrow> string" where
  "fmt_nat n = digits_acc n []"

definition fmt_int :: "int \<Rightarrow> string" where
  "fmt_int i = (if i < 0 then CHR ''-'' # fmt_nat (nat (- i)) else fmt_nat (nat i))"

section \<open>The bencode decoder\<close>

text \<open>
  \<open>wrap64\<close> is the wrap-around of 64-bit signed addition.  \<open>go_slice s lo hi\<close> is the slice
  expression \<open>s[lo:hi]\<close>, which panics unless \<open>0 <= lo <= hi <= len(s)\<close>.
  \<open>firstIndexOf c s 0\<close> is the loop that records the index of the first \<open>c\<close> and leaves the
  index variable at its zero value when there is none.
\<close>

definition wrap64 :: "int \<Rightarrow> int" where
  "wrap64 x = (x + 2 ^ 63) mod 2 ^ 64 - 2 ^ 63"

definition go_slice :: "'a list \<Rightarrow> int \<Rightarrow> int \<Rightarrow> 'a list result" where
  "go_slice s lo hi =
     (if 0 \<le> lo \<and> lo \<le> hi \<and> hi \<le> int (length s)
      then Inr (take (nat hi - nat lo) (drop (nat lo) s))
      else Inl PanicSlice)"

fun firstIndexOf :: "char \<Rightarrow> string \<Rightarrow> nat \<Rightarrow> nat" where
  "firstIndexOf c [] i = 0"
| "firstIndexOf c (x # xs) i = (if x = c then i else firstIndexOf c xs (Suc i))"

definition decodeString :: "string \<Rightarrow> (bvalue \<times> int) result" where
  "decodeString s =
     (let firstColonIndex = firstIndexOf CHR '':'' s 0;
          lengthStr = take firstColonIndex s
      in case Atoi lengthStr of
           Inl err \<Rightarrow> Inl err
         | Inr len \<Rightarrow>
             (let untilIndex = wrap64 (int firstColonIndex + 1 + len)
              in case go_slice s (int firstColonIndex + 1) untilIndex of
                   Inl p \<Rightarrow> Inl p
                 | Inr str \<Rightarrow> Inr (BStr str, untilIndex)))"

definition decodeInteger :: "string \<Rightarrow> (bvalue \<times> int) result" where
  "decodeInteger s =
     (let endIndex = firstIndexOf CHR ''e'' s 0
      in case go_slice s 1 (int endIndex) of
           Inl p \<Rightarrow> Inl p
         | Inr numStr \<Rightarrow>
             (case Atoi numStr of
                Inl err \<Rightarrow> Inl err
              | Inr num \<Rightarrow> Inr (BInt num, int endIndex + 1)))"

text \<open>
  \<open>decodeBencode\<close> with its two loops: \<open>decodeList inp ret untilIndex\<close> and
  \<open>decodeDict inp ret key untilIndex\<close> are the \<open>for\<close> loops of the list and the dictionary
  case, on the loop variables of the source.  \<open>ret[key] = decoded\<close> is \<open>AList.update\<close>.
\<close>

function decodeBencode :: "string \<Rightarrow> (bvalue \<times> int) result"
  and decodeList :: "string \<Rightarrow> bvalue list \<Rightarrow> int \<Rightarrow> (bvalue \<times> int) result"
  and decodeDict ::
    "string \<Rightarrow> (string \<times> bvalue) list \<Rightarrow> string \<Rightarrow> int \<Rightarrow> (bvalue \<times> int) result"
where
  "decodeBencode s =
     (if s = [] then Inl PanicIndex
      else if isDigit (hd s) then decodeString s
      else if hd s = CHR ''i'' then decodeInteger s
      else if hd s = CHR ''l'' then decodeList (tl s) [] 0
      else if hd s = CHR ''d'' then decodeDict (tl s) [] [] 0
      else Inl ErrUnexpectedFormat)"
| "decodeList inp ret untilIndex =
     (if inp = [] then Inl PanicIndex
      else if hd inp = CHR ''e'' then Inr (BList ret, untilIndex + 1)
      else case decodeBencode inp of
             Inl err \<Rightarrow> Inl err
           | Inr (decoded, nextIndex) \<Rightarrow>
               (if nextIndex < 0 \<or> int (length inp) < nextIndex then Inl PanicSlice
                else decodeList (drop (nat nextIndex) inp) (ret @ [decoded])
                       (untilIndex + nextIndex)))"
| "decodeDict inp ret key untilIndex =
     (if inp = [] then Inl PanicIndex
      else if hd inp = CHR ''e'' then Inr (BDict ret, untilIndex + 1)
      else case decodeBencode inp of
             Inl err \<Rightarrow> Inl err
           | Inr (decoded, nextIndex) \<Rightarrow>
               (if key = [] then
                  (case decoded of
                     BStr k \<Rightarrow>
                       (if nextIndex < 0 \<or> int (length inp) < nextIndex then Inl PanicSlice
                        else decodeDict (drop (nat nextIndex) inp) ret k
                               (untilIndex + nextIndex))
                   | _ \<Rightarrow> Inl PanicTypeAssert)
                else
                  (if nextIndex < 0 \<or> int (length inp) < nextIndex then Inl PanicSlice
                   else decodeDict (drop (nat nextIndex) inp)
                          (AList.update key decoded ret) [] (untilIndex + nextIndex))))"
  by pat_completeness auto

text \<open>
  Termination: every successful call reports at least one consumed byte, so each loop
  iteration continues on a strictly shorter input.  The fact is first shown on the domain
  of the function and then used in the termination proof.
\<close>

lemma decodeString_pos: "decodeString s = Inr (v, n) \<Longrightarrow> 1 \<le> n"
  by (auto simp: decodeString_def Let_def go_slice_def split: sum.splits if_splits)

lemma decodeInteger_pos: "decodeInteger s = Inr (v, n) \<Longrightarrow> 1 \<le> n"
  by (auto simp: decodeInteger_def Let_def split: sum.splits if_splits)

lemma decode_pos_partial:
  "decodeBencode_decodeList_decodeDict_dom (Inl s) \<Longrightarrow>
     (\<forall>v n. decodeBencode s = Inr (v, n) \<longrightarrow> 1 \<le> n)"
  "decodeBencode_decodeList_decodeDict_dom (Inr (Inl (inp, ret, u))) \<Longrightarrow>
     (0 \<le> u \<longrightarrow> (\<forall>v n. decodeList inp ret u = Inr (v, n) \<longrightarrow> 1 \<le> n))"
  "decodeBencode_decodeList_decodeDict_dom (Inr (Inr (inp', ret', key, u'))) \<Longrightarrow>
     (0 \<le> u' \<longrightarrow> (\<forall>v n. decodeDict inp' ret' key u' = Inr (v, n) \<longrightarrow> 1 \<le> n))"
proof (induction s and inp ret u and inp' ret' key u'
    rule: decodeBencode_decodeList_decodeDict.pinduct)
  case (1 s)
  show ?case
  proof (intro allI impI)
    fix v n assume eq: "decodeBencode s = Inr (v, n)"
    note ps = decodeBencode.psimps[OF 1(1)]
    consider (str) "s \<noteq> []" "isDigit (hd s)"
      | (int) "s \<noteq> []" "\<not> isDigit (hd s)" "hd s = CHR ''i''"
      | (lst) "s \<noteq> []" "\<not> isDigit (hd s)" "hd s \<noteq> CHR ''i''" "hd s = CHR ''l''"
      | (dct) "s \<noteq> []" "\<not> isDigit (hd s)" "hd s \<noteq> CHR ''i''" "hd s \<noteq> CHR ''l''"
          "hd s = CHR ''d''"
      | (oth) "s = [] \<or> (\<not> isDigit (hd s) \<and> hd s \<noteq> CHR ''i'' \<and> hd s \<noteq> CHR ''l''
          \<and> hd s \<noteq> CHR ''d'')"
      by blast
    then show "1 \<le> n"
    proof cases
      case str
      with eq ps have "decodeString s = Inr (v, n)" by simp
      then show ?thesis by (rule decodeString_pos)
    next
      case int
      with eq ps have "decodeInteger s = Inr (v, n)" by simp
      then show ?thesis by (rule decodeInteger_pos)
    next
      case lst
      with eq ps have "decodeList (tl s) [] 0 = Inr (v, n)" by simp
      with 1(2)[OF lst] show ?thesis by simp
    next
      case dct
      with eq ps have "decodeDict (tl s) [] [] 0 = Inr (v, n)" by simp
      with 1(3)[OF dct] show ?thesis by simp
    next
      case oth
      with eq ps show ?thesis by (auto split: if_splits)
    qed
  qed
next
  case (2 inp ret untilIndex)
  show ?case
  proof (intro allI impI)
    fix v n
    assume u: "0 \<le> untilIndex" and eq: "decodeList inp ret untilIndex = Inr (v, n)"
    note ps = decodeList.psimps[OF 2(1)]
    show "1 \<le> n"
    proof (cases "inp = [] \<or> hd inp = CHR ''e''")
      case True
      with eq ps u show ?thesis by (auto split: if_splits)
    next
      case False
      then have ne: "inp \<noteq> []" "hd inp \<noteq> CHR ''e''" by auto
      from eq ps ne obtain d k where dk: "decodeBencode inp = Inr (d, k)"
        and rest: "\<not> (k < 0 \<or> int (length inp) < k)"
          "decodeList (drop (nat k) inp) (ret @ [d]) (untilIndex + k) = Inr (v, n)"
        by (auto split: sum.splits prod.splits if_splits)
      from 2(3)[OF ne dk refl rest(1)] rest u show ?thesis by simp
    qed
  qed
next
  case (3 inp ret key untilIndex)
  show ?case
  proof (intro allI impI)
    fix v n
    assume u: "0 \<le> untilIndex" and eq: "decodeDict inp ret key untilIndex = Inr (v, n)"
    note ps = decodeDict.psimps[OF 3(1)]
    show "1 \<le> n"
    proof (cases "inp = [] \<or> hd inp = CHR ''e''")
      case True
      with eq ps u show ?thesis by (auto split: if_splits)
    next
      case False
      then have ne: "inp \<noteq> []" "hd inp \<noteq> CHR ''e''" by auto
      from eq ps ne obtain d k where dk: "decodeBencode inp = Inr (d, k)"
        by (auto split: sum.splits prod.splits)
      have k: "\<not> (k < 0 \<or> int (length inp) < k)"
        using eq ps ne dk by (auto split: if_splits bvalue.splits)
      show ?thesis
      proof (cases "key = []")
        case True
        with eq ps ne dk k obtain x1 where d: "d = BStr x1"
          and rest: "decodeDict (drop (nat k) inp) ret x1 (untilIndex + k) = Inr (v, n)"
          by (auto split: bvalue.splits)
        from 3(3)[OF ne dk refl True d k] rest u k show ?thesis by simp
      next
        case False
        with eq ps ne dk k have rest:
          "decodeDict (drop (nat k) inp) (AList.update key d ret) [] (untilIndex + k)
             = Inr (v, n)"
          by simp
        from 3(4)[OF ne dk refl False k] rest u k show ?thesis by simp
      qed
    qed
  qed
qed

termination decodeBencode
proof (relation "measures
    [\<lambda>x. case x of Inl s \<Rightarrow> length s
                  | Inr (Inl (inp, _, _)) \<Rightarrow> length inp
                  | Inr (Inr (inp, _, _, _)) \<Rightarrow> length inp,
     \<lambda>x. case x of Inl s \<Rightarrow> 0 | Inr _ \<Rightarrow> 1]", goal_cases)
  case 1
  show ?case by simp
next
  case 2
  then show ?case by simp
next
  case 3
  then show ?case by simp
next
  case 4
  then show ?case by simp
next
  case (5 inp ret untilIndex b x y)
  from 5(3,4) have eq: "decodeBencode inp = Inr (x, y)" by simp
  have "1 \<le> y" using decode_pos_partial(1)[OF 5(6)] eq by blast
  with 5(1,5) show ?case by simp
next
  case 6
  then show ?case by simp
next
  case (7 inp ret key untilIndex b x y x1)
  from 7(3,4) have eq: "decodeBencode inp = Inr (x, y)" by simp
  have "1 \<le> y" using decode_pos_partial(1)[OF 7(8)] eq by blast
  with 7(1,7) show ?case by simp
next
  case (8 inp ret key untilIndex b x y)
  from 8(3,4) have eq: "decodeBencode inp = Inr (x, y)" by simp
  have "1 \<le> y" using decode_pos_partial(1)[OF 8(7)] eq by blast
  with 8(1,6) show ?case by simp
qed

declare decodeBencode.simps [simp del] decodeList.simps [simp del] decodeDict.simps [simp del]

section \<open>The bencode encoder\<close>

text \<open>
  \<open>bencode\<close> with its two loops: \<open>bencodeItems items joined\<close> is the loop over a list,
  \<open>bencodeEntries keys m joined\<close> the loop over the sorted keys of a map.  \<open>sort\<close> on
  strings is the byte-lexicographic order of \<open>sort.Strings\<close>.  The lookup \<open>m[key]\<close> of a
  key that is absent yields \<open>nil\<close>, on which \<open>bencode\<close> returns its "unexpected type" error.
\<close>

function bencode :: "bvalue \<Rightarrow> string result"
  and bencodeItems :: "bvalue list \<Rightarrow> string \<Rightarrow> string result"
  and bencodeEntries :: "string list \<Rightarrow> (string \<times> bvalue) list \<Rightarrow> string \<Rightarrow> string result"
where
  "bencode (BStr str) = Inr (fmt_nat (length str) @ '':'' @ str)"
| "bencode (BInt num) = Inr (''i'' @ fmt_int num @ ''e'')"
| "bencode (BList items) =
     (case bencodeItems items [] of
        Inl err \<Rightarrow> Inl err
      | Inr joined \<Rightarrow> Inr (''l'' @ joined @ ''e''))"
| "bencode (BDict m) =
     (case bencodeEntries (sort (map fst m)) m [] of
        Inl err \<Rightarrow> Inl err
      | Inr joined \<Rightarrow> Inr (''d'' @ joined @ ''e''))"
| "bencode BOther = Inl ErrUnexpectedType"
| "bencodeItems [] joined = Inr joined"
| "bencodeItems (item # items) joined =
     (case bencode item of
        Inl err \<Rightarrow> Inl err
      | Inr bencoded \<Rightarrow> bencodeItems items (joined @ bencoded))"
| "bencodeEntries [] m joined = Inr joined"
| "bencodeEntries (key # keys) m joined =
     (case bencode (BStr key) of
        Inl err \<Rightarrow> Inl err
      | Inr bencodedKey \<Rightarrow>
          (case (case map_of m key of None \<Rightarrow> Inl ErrUnexpectedType | Some v \<Rightarrow> bencode v) of
             Inl err \<Rightarrow> Inl err
           | Inr bencodedValue \<Rightarrow>
               bencodeEntries keys m (joined @ bencodedKey @ bencodedValue)))"
  by pat_completeness auto

lemma size_map_of_less:
  "map_of m k = Some v \<Longrightarrow> size v < size_list (size_prod (\<lambda>_. 0) size) m"
  by (induction m) (auto split: if_splits)

termination bencode
  by (relation "measures
    [\<lambda>x. case x of Inl v \<Rightarrow> 2 * size v
                  | Inr (Inl (items, _)) \<Rightarrow> 2 * size_list size items + 1
                  | Inr (Inr (_, m, _)) \<Rightarrow> 2 * size_list (size_prod (\<lambda>_. 0) size) m + 1,
     \<lambda>x. case x of Inl v \<Rightarrow> 0
                  | Inr (Inl (items, _)) \<Rightarrow> 0
                  | Inr (Inr (keys, _, _)) \<Rightarrow> length keys]")
    (auto dest!: size_map_of_less)

section \<open>Metainfo\<close>

text \<open>
  \<open>crypto/sha1\<close> is not part of the repository: \<open>sha1.Sum\<close> is a parameter \<open>sha1Sum\<close> of
  every function that hashes.  Its result type \<open>[20]byte\<close> is a 160-bit word, and
  \<open>digest_bytes\<close> lists its 20 bytes, most significant first.  The content of the torrent
  file is an argument; opening and reading the file are outside the model.
\<close>

type_synonym digest = "160 word"

definition digest_bytes :: "digest \<Rightarrow> string" where
  "digest_bytes d = map (\<lambda>i. char_of (unat (drop_bit (8 * (19 - i)) d))) [0..<20]"

record Info =
  TrackerURL :: string
  Length :: int
  InfoHash :: string
  PieceLength :: int
  PieceHashes :: string

definition eachPieceSize :: nat where
  "eachPieceSize = 20"

definition hex_digit :: "nat \<Rightarrow> char" where
  "hex_digit d = ''0123456789abcdef'' ! d"

text \<open>\<open>fmt.Sprintf("%x", s)\<close> for a string: two lower-case hexadecimal digits per byte.\<close>

definition fmt_hex :: "string \<Rightarrow> string" where
  "fmt_hex s = concat (map (\<lambda>c. [hex_digit (of_char c div 16), hex_digit (of_char c mod 16)]) s)"

text \<open>The type assertions \<open>x.(map[string]interface{})\<close>, \<open>x.(string)\<close> and \<open>x.(int)\<close> on the
  result of a map lookup; an absent key yields \<open>nil\<close>, on which every assertion panics.\<close>

definition assertDict :: "bvalue option \<Rightarrow> (string \<times> bvalue) list result" where
  "assertDict x = (case x of Some (BDict m) \<Rightarrow> Inr m | _ \<Rightarrow> Inl PanicTypeAssert)"

definition assertString :: "bvalue option \<Rightarrow> string result" where
  "assertString x = (case x of Some (BStr s) \<Rightarrow> Inr s | _ \<Rightarrow> Inl PanicTypeAssert)"

definition assertInt :: "bvalue option \<Rightarrow> int result" where
  "assertInt x = (case x of Some (BInt i) \<Rightarrow> Inr i | _ \<Rightarrow> Inl PanicTypeAssert)"

definition decodeTorrentFile :: "string \<Rightarrow> (string \<times> bvalue) list result" where
  "decodeTorrentFile content =
     (case decodeBencode content of
        Inl err \<Rightarrow> Inl err
      | Inr (decoded, _) \<Rightarrow> assertDict (Some decoded))"

text \<open>The loop \<open>for i := 0; i < len(pieceStr); i += eachPieceSize\<close> of \<open>parseToInfo\<close>.\<close>

function pieceHashesLoop :: "string \<Rightarrow> nat \<Rightarrow> string \<Rightarrow> string result" where
  "pieceHashesLoop pieceStr i hashes =
     (if i < length pieceStr then
        (case go_slice pieceStr (int i) (int (i + eachPieceSize)) of
           Inl p \<Rightarrow> Inl p
         | Inr sl \<Rightarrow> pieceHashesLoop pieceStr (i + eachPieceSize)
                      (hashes @ fmt_hex sl @ [CHR 0x0A]))
      else Inr hashes)"
  by pat_completeness auto
termination
  by (relation "measure (\<lambda>(pieceStr, i, hashes). length pieceStr - i)")
    (auto simp: eachPieceSize_def)

declare pieceHashesLoop.simps [simp del]

definition parseToInfo :: "(string \<Rightarrow> digest) \<Rightarrow> string \<Rightarrow> Info result" where
  "parseToInfo sha1Sum content =
     (case decodeTorrentFile content of
        Inl err \<Rightarrow> Inl err
      | Inr decoded \<Rightarrow>
     (case assertDict (map_of decoded ''info'') of
        Inl p \<Rightarrow> Inl p
      | Inr metaInfo \<Rightarrow>
     (case assertString (map_of decoded ''announce'') of
        Inl p \<Rightarrow> Inl p
      | Inr trackerURL \<Rightarrow>
     (case assertInt (map_of metaInfo ''length'') of
        Inl p \<Rightarrow> Inl p
      | Inr len \<Rightarrow>
     (case assertInt (map_of metaInfo ''piece length'') of
        Inl p \<Rightarrow> Inl p
      | Inr pieceLength \<Rightarrow>
     (case bencode (BDict metaInfo) of
        Inl err \<Rightarrow> Inl err
      | Inr bencoded \<Rightarrow>
     (case assertString (map_of metaInfo ''pieces'') of
        Inl p \<Rightarrow> Inl p
      | Inr pieceStr \<Rightarrow>
     (case pieceHashesLoop pieceStr 0 [] of
        Inl p \<Rightarrow> Inl p
      | Inr hashes \<Rightarrow>
          Inr \<lparr>TrackerURL = trackerURL, Length = len,
               InfoHash = digest_bytes (sha1Sum bencoded),
               PieceLength = pieceLength, PieceHashes = hashes\<rparr>))))))))"

section \<open>Peer wire client\<close>

text \<open>
  A connection is the bytes the peer has sent and that are still unread, and the list of
  buffers written so far, one per \<open>Write\<close>.  \<open>Read\<close> into a buffer of \<open>n\<close> bytes takes up to
  \<open>n\<close> of the unread bytes and leaves the rest of the buffer zero; on an exhausted stream it
  returns the end-of-file error.  The callers ignore the byte count that \<open>Read\<close> returns.
  The unread bytes are all that the peer sends before it closes the connection; a peer that
  stays silent without closing, short reads of a stream that is not exhausted and failing
  writes are outside the model.
\<close>

record conn =
  incoming :: string
  outgoing :: "string list"

definition conn_Write :: "string \<Rightarrow> conn \<Rightarrow> conn" where
  "conn_Write buf c = c\<lparr>outgoing := outgoing c @ [buf]\<rparr>"

definition conn_Read :: "nat \<Rightarrow> conn \<Rightarrow> (string \<times> conn) result" where
  "conn_Read n c =
     (if n = 0 then Inr ([], c)
      else if incoming c = [] then Inl ErrEOF
      else Inr (take n (incoming c) @ replicate (n - length (incoming c)) (CHR 0x00),
                c\<lparr>incoming := drop n (incoming c)\<rparr>))"

definition protocolStrLengthStr :: string where
  "protocolStrLengthStr = [CHR 0x13]"

definition protocolStr :: string where
  "protocolStr = ''BitTorrent protocol''"

definition reservedBytesStr :: string where
  "reservedBytesStr = ''00000000''"

definition peerID :: string where
  "peerID = ''00112233445566778899''"

definition handshakeMessage :: "string \<Rightarrow> string" where
  "handshakeMessage infoHash =
     protocolStrLengthStr @ protocolStr @ reservedBytesStr @ infoHash @ peerID"

definition handshake :: "(string \<Rightarrow> digest) \<Rightarrow> conn \<Rightarrow> string \<Rightarrow> (string \<times> conn) result" where
  "handshake sha1Sum c content =
     (case parseToInfo sha1Sum content of
        Inl err \<Rightarrow> Inl err
      | Inr info \<Rightarrow>
          (let hs = handshakeMessage (InfoHash info);
               c1 = conn_Write hs c
           in case conn_Read (length hs) c1 of
                Inl err \<Rightarrow> Inl err
              | Inr (buf, c2) \<Rightarrow>
                  (case go_slice buf (int (length hs) - int (length peerID)) (int (length buf)) of
                     Inl p \<Rightarrow> Inl p
                   | Inr remote \<Rightarrow> Inr (remote, c2))))"

definition choke :: char where "choke = CHR 0x00"
definition unchoke :: char where "unchoke = CHR 0x01"
definition interested :: char where "interested = CHR 0x02"
definition notInterestedNot :: char where "notInterestedNot = CHR 0x03"
definition have_id :: char where "have_id = CHR 0x04"
definition bitfield :: char where "bitfield = CHR 0x05"
definition request :: char where "request = CHR 0x06"
definition piece :: char where "piece = CHR 0x07"
definition cancel :: char where "cancel = CHR 0x08"

definition messageLengthLen :: nat where "messageLengthLen = 4"
definition messageIDLen :: nat where "messageIDLen = 1"

text \<open>\<open>binary.BigEndian.Uint32\<close> on a buffer of four bytes and \<open>binary.BigEndian.PutUint32\<close>.\<close>

definition be_Uint32 :: "string \<Rightarrow> 32 word" where
  "be_Uint32 b =
     push_bit 24 (of_char (b ! 0)) OR push_bit 16 (of_char (b ! 1)) OR
     push_bit 8 (of_char (b ! 2)) OR of_char (b ! 3)"

definition be_PutUint32 :: "32 word \<Rightarrow> string" where
  "be_PutUint32 w =
     [char_of (unat (drop_bit 24 w)), char_of (unat (drop_bit 16 w)),
      char_of (unat (drop_bit 8 w)), char_of (unat w)]"

text \<open>The size of the payload buffer of \<open>waitPeerMessage\<close>: \<open>messageLength - messageIDLen\<close>
  on \<open>uint32\<close>.\<close>

definition payloadBufLen :: "32 word \<Rightarrow> 32 word" where
  "payloadBufLen messageLength = messageLength - word_of_nat messageIDLen"

lemma conn_Read_shorter:
  "conn_Read n c = Inr (buf, c') \<Longrightarrow> length (incoming c') \<le> length (incoming c)"
  "conn_Read n c = Inr (buf, c') \<Longrightarrow> 0 < n \<Longrightarrow> length (incoming c') < length (incoming c)"
  by (auto simp: conn_Read_def split: if_splits)

lemma conn_Read_three:
  assumes "conn_Read 4 c = Inr (b1, c1)" "conn_Read n2 c1 = Inr (b2, c2)"
    "conn_Read n3 c2 = Inr (b3, c3)"
  shows "length (incoming c3) < length (incoming c)"
proof -
  have "length (incoming c1) < length (incoming c)"
    using conn_Read_shorter(2)[OF assms(1)] by simp
  moreover have "length (incoming c2) \<le> length (incoming c1)"
    using conn_Read_shorter(1)[OF assms(2)] .
  moreover have "length (incoming c3) \<le> length (incoming c2)"
    using conn_Read_shorter(1)[OF assms(3)] .
  ultimately show ?thesis by simp
qed

function waitPeerMessage :: "conn \<Rightarrow> char \<Rightarrow> (string \<times> conn) result" where
  "waitPeerMessage c expid =
     (case conn_Read messageLengthLen c of
        Inl err \<Rightarrow> Inl err
      | Inr (messageLengthBuf, c1) \<Rightarrow>
     (case conn_Read messageIDLen c1 of
        Inl err \<Rightarrow> Inl err
      | Inr (messageIDBuf, c2) \<Rightarrow>
     (let messageLength = be_Uint32 messageLengthBuf;
          messageID = messageIDBuf ! 0
      in case conn_Read (unat (payloadBufLen messageLength)) c2 of
           Inl err \<Rightarrow> Inl err
         | Inr (payloadBuf, c3) \<Rightarrow>
             if messageID = expid then Inr (payloadBuf, c3)
             else waitPeerMessage c3 expid)))"
  by pat_completeness auto
termination
  by (relation "measure (\<lambda>(c, expid). length (incoming c))")
    (auto simp: messageLengthLen_def intro: conn_Read_three)

declare waitPeerMessage.simps [simp del]

definition sendPeerMessage :: "conn \<Rightarrow> char \<Rightarrow> string \<Rightarrow> conn" where
  "sendPeerMessage c ident payload =
     conn_Write (be_PutUint32 (word_of_nat (messageIDLen + length payload)) @ [ident] @ payload) c"

section \<open>Piece downloader\<close>

text \<open>
  The \<open>download_piece\<close> command of \<open>main\<close>, from the call of \<open>parseToInfo\<close> on.  The
  tracker query and \<open>net.Dial\<close> are outside the model: the connection they yield is an
  argument, and so is the piece index parsed from the command line.  \<open>requestLoop\<close> is the
  first \<open>for\<close> loop with its variables \<open>offset\<close> and \<open>count\<close>; the addition on the 64-bit
  \<open>int\<close> wraps around, so the loop is a partial function (it does not end for a piece
  length above \<open>2^63 - 16384\<close>).  \<open>receiveLoop\<close> is the second loop, on \<open>i\<close> and the
  assembly buffer.
\<close>

definition blockSize :: int where
  "blockSize = 16 * 1024"

definition requestPayload :: "int \<Rightarrow> int \<Rightarrow> string" where
  "requestPayload pieceIdx offset =
     be_PutUint32 (word_of_int pieceIdx) @ be_PutUint32 (word_of_int offset) @
     be_PutUint32 (word_of_int blockSize)"

partial_function (option) requestLoop ::
  "conn \<Rightarrow> int \<Rightarrow> int \<Rightarrow> int \<Rightarrow> int \<Rightarrow> (conn \<times> int) option"
where
  "requestLoop c pieceIdx pieceLength offset count =
     (if pieceLength \<le> wrap64 (offset + blockSize)
      then Some (sendPeerMessage c request (requestPayload pieceIdx (wrap64 (offset + blockSize))),
                 count)
      else requestLoop
             (sendPeerMessage c request (requestPayload pieceIdx (wrap64 (offset + blockSize))))
             pieceIdx pieceLength (wrap64 (offset + blockSize)) (count + 1))"

text \<open>\<open>make([]byte, n)\<close> and \<open>copy(dst[begin:], src)\<close>.\<close>

definition go_make :: "int \<Rightarrow> string result" where
  "go_make n = (if n < 0 then Inl PanicMakeSlice else Inr (replicate (nat n) (CHR 0x00)))"

definition go_copy_from :: "string \<Rightarrow> nat \<Rightarrow> string \<Rightarrow> string result" where
  "go_copy_from dst begin src =
     (if length dst < begin then Inl PanicSlice
      else Inr (take begin dst @ take (length dst - begin) src @
                drop (begin + length src) dst))"

function receiveLoop :: "conn \<Rightarrow> int \<Rightarrow> int \<Rightarrow> int \<Rightarrow> string \<Rightarrow> (string \<times> conn) result" where
  "receiveLoop c pieceIdx count i combinedBlock =
     (if i < count then
        (case waitPeerMessage c piece of
           Inl err \<Rightarrow> Inl err
         | Inr (payload, c1) \<Rightarrow>
        (case go_slice payload 0 4 of
           Inl p \<Rightarrow> Inl p
         | Inr indexBuf \<Rightarrow>
             if be_Uint32 indexBuf \<noteq> word_of_int pieceIdx then Inl ErrUnexpectedIndex
             else
        (case go_slice payload 4 8 of
           Inl p \<Rightarrow> Inl p
         | Inr beginBuf \<Rightarrow>
        (case go_slice payload 8 (int (length payload)) of
           Inl p \<Rightarrow> Inl p
         | Inr block \<Rightarrow>
        (case go_copy_from combinedBlock (unat (be_Uint32 beginBuf)) block of
           Inl p \<Rightarrow> Inl p
         | Inr combined \<Rightarrow> receiveLoop c1 pieceIdx count (i + 1) combined)))))
      else Inr (combinedBlock, c))"
  by pat_completeness auto
termination
  by (relation "measure (\<lambda>(c, pieceIdx, count, i, combinedBlock). nat (count - i))") auto

declare receiveLoop.simps [simp del]

text \<open>The comparison of the digest of the assembled buffer with \<open>info.PieceHashes\<close>; a
  successful result is the content written to the output file.\<close>

definition verifyPiece :: "(string \<Rightarrow> digest) \<Rightarrow> Info \<Rightarrow> string \<Rightarrow> string result" where
  "verifyPiece sha1Sum info combinedBlock =
     (if digest_bytes (sha1Sum combinedBlock) \<noteq> PieceHashes info
      then Inl ErrInvalidPieceHash
      else Inr combinedBlock)"

definition download_piece ::
  "(string \<Rightarrow> digest) \<Rightarrow> string \<Rightarrow> int \<Rightarrow> conn \<Rightarrow> string result option"
where
  "download_piece sha1Sum content pieceIdx c =
     (case parseToInfo sha1Sum content of
        Inl err \<Rightarrow> Some (Inl err)
      | Inr info \<Rightarrow>
     (case handshake sha1Sum c content of
        Inl err \<Rightarrow> Some (Inl err)
      | Inr (_, c1) \<Rightarrow>
     (case waitPeerMessage c1 bitfield of
        Inl err \<Rightarrow> Some (Inl err)
      | Inr (_, c2) \<Rightarrow>
     (case waitPeerMessage (sendPeerMessage c2 interested []) unchoke of
        Inl err \<Rightarrow> Some (Inl err)
      | Inr (_, c4) \<Rightarrow>
     (case requestLoop c4 pieceIdx (PieceLength info) 0 0 of
        None \<Rightarrow> None
      | Some (c5, count) \<Rightarrow>
     (case go_make (PieceLength info) of
        Inl p \<Rightarrow> Some (Inl p)
      | Inr buf \<Rightarrow>
     (case receiveLoop c5 pieceIdx count 0 buf of
        Inl err \<Rightarrow> Some (Inl err)
      | Inr (combinedBlock, c6) \<Rightarrow>
          Some (verifyPiece sha1Sum info combinedBlock))))))))"

section \<open>Notions used to state the properties\<close>

text \<open>
  \<open>out_of\<close> reads the string of a successful result.  \<open>wf_value\<close> holds of the values a
  decoded input can consist of: the four bencode kinds only, and maps with pairwise distinct
  keys.  \<open>canon\<close> lists every map in the order of its keys, so that two association lists
  standing for the same Go map have the same image; \<open>same_value\<close> is equality of Go values.
  \<open>block_begins\<close> reads the \<open>begin\<close> field of every request written to a connection.
\<close>

definition out_of :: "string result \<Rightarrow> string" where
  "out_of r = (case r of Inl _ \<Rightarrow> [] | Inr s \<Rightarrow> s)"

fun wf_value :: "bvalue \<Rightarrow> bool" where
  "wf_value (BStr s) = True"
| "wf_value (BInt i) = True"
| "wf_value (BList items) = (\<forall>v \<in> set items. wf_value v)"
| "wf_value (BDict m) = (distinct (map fst m) \<and> (\<forall>v \<in> snd ` set m. wf_value v))"
| "wf_value BOther = False"

fun canon :: "bvalue \<Rightarrow> bvalue" where
  "canon (BList items) = BList (map canon items)"
| "canon (BDict m) = BDict (sort_key fst (map (\<lambda>kv. (fst kv, canon (snd kv))) m))"
| "canon v = v"

definition same_value :: "bvalue \<Rightarrow> bvalue \<Rightarrow> bool" where
  "same_value a b = (canon a = canon b)"

text \<open>\<open>has_dict\<close>, \<open>has_string\<close> and \<open>has_int\<close>: the map holds the key, with a value of
  the kind named.\<close>

definition has_dict :: "(string \<times> bvalue) list \<Rightarrow> string \<Rightarrow> bool" where
  "has_dict d k = (case map_of d k of Some (BDict _) \<Rightarrow> True | _ \<Rightarrow> False)"

definition has_string :: "(string \<times> bvalue) list \<Rightarrow> string \<Rightarrow> bool" where
  "has_string d k = (case map_of d k of Some (BStr _) \<Rightarrow> True | _ \<Rightarrow> False)"

definition has_int :: "(string \<times> bvalue) list \<Rightarrow> string \<Rightarrow> bool" where
  "has_int d k = (case map_of d k of Some (BInt _) \<Rightarrow> True | _ \<Rightarrow> False)"

definition block_begins :: "string list \<Rightarrow> nat list" where
  "block_begins msgs = map (\<lambda>m. unat (be_Uint32 (take 4 (drop 9 m)))) msgs"


section \<open>Evaluation on concrete inputs\<close>

lemmas dec_eval = decodeBencode.simps decodeList.simps decodeDict.simps decodeString_def
  decodeInteger_def Atoi_def parseInt_def isDigit_def go_slice_def wrap64_def

lemmas enc_eval = fmt_nat_def fmt_int_def digits_acc.simps digit_char_def

section \<open>Properties of the bencode codec\<close>

subsection \<open>Literal decoding cases\<close>



subsection \<open>Malformed input\<close>

text \<open>
  The index of the first \<open>:\<close> or \<open>e\<close>, the 64-bit range of a parsed length, and the
  wrap-around of the end index.
\<close>

lemma wrap64_id: "- (2 ^ 63) \<le> x \<Longrightarrow> x < 2 ^ 63 \<Longrightarrow> wrap64 x = x"
  by (simp add: wrap64_def)


























subsection \<open>Canonical order of dictionary keys\<close>






subsection \<open>Round trip\<close>

text \<open>
  Claim C7 at the list \<open>[[], 1]\<close> and at the map \<open>{"": 1}\<close>: the list encodes to
  \<open>llei1ee\<close>, which decodes to \<open>[[]]\<close>, whose encoding is \<open>llee\<close>; the map encodes to
  \<open>d0:i1ee\<close>, on which the decoder ends in a failed type assertion.
\<close>

theorem C7_roundtrip_fails:
  "bencode (BList [BList [], BInt 1]) = Inr ''llei1ee''
   \<and> decodeBencode ''llei1ee'' = Inr (BList [BList []], 2)
   \<and> bencode (BList [BList []]) = Inr ''llee''
   \<and> bencode (BDict [('''', BInt 1)]) = Inr ''d0:i1ee''
   \<and> decodeBencode ''d0:i1ee'' = Inl PanicTypeAssert"
  by (simp add: dec_eval enc_eval)

section \<open>Properties of the metainfo deriver\<close>

subsection \<open>Decoded values and their encoding\<close>

lemma length_digest_bytes: "length (digest_bytes d) = 20"
  by (simp add: digest_bytes_def)

text \<open>
  A decoded value consists of the four bencode kinds and its maps have distinct keys; such
  a value always has an encoding.
\<close>

lemma set_update_cases:
  "x \<in> set (AList.update k v al) \<Longrightarrow> x = (k, v) \<or> x \<in> set al"
  by (induction al) (auto split: if_splits)

lemma decodeString_wf: "decodeString s = Inr (v, n) \<Longrightarrow> wf_value v"
  by (auto simp: decodeString_def Let_def split: sum.splits)

lemma decodeInteger_wf: "decodeInteger s = Inr (v, n) \<Longrightarrow> wf_value v"
  by (auto simp: decodeInteger_def Let_def split: sum.splits)

lemma decode_wf_all:
  "(\<forall>v n. decodeBencode s = Inr (v, n) \<longrightarrow> wf_value v)"
  "((\<forall>x \<in> set ret. wf_value x) \<longrightarrow>
      (\<forall>v n. decodeList inp ret u = Inr (v, n) \<longrightarrow> wf_value v))"
  "((distinct (map fst ret') \<and> (\<forall>x \<in> snd ` set ret'. wf_value x)) \<longrightarrow>
      (\<forall>v n. decodeDict inp' ret' key u' = Inr (v, n) \<longrightarrow> wf_value v))"
proof (induction s and inp ret u and inp' ret' key u'
    rule: decodeBencode_decodeList_decodeDict.induct)
  case (1 s)
  show ?case
  proof (intro allI impI)
    fix v n assume eq: "decodeBencode s = Inr (v, n)"
    note ps = decodeBencode.simps[of s]
    consider (str) "s \<noteq> []" "isDigit (hd s)"
      | (int) "s \<noteq> []" "\<not> isDigit (hd s)" "hd s = CHR ''i''"
      | (lst) "s \<noteq> []" "\<not> isDigit (hd s)" "hd s \<noteq> CHR ''i''" "hd s = CHR ''l''"
      | (dct) "s \<noteq> []" "\<not> isDigit (hd s)" "hd s \<noteq> CHR ''i''" "hd s \<noteq> CHR ''l''"
          "hd s = CHR ''d''"
      | (oth) "s = [] \<or> (\<not> isDigit (hd s) \<and> hd s \<noteq> CHR ''i'' \<and> hd s \<noteq> CHR ''l''
          \<and> hd s \<noteq> CHR ''d'')"
      by blast
    then show "wf_value v"
    proof cases
      case str
      with eq ps have "decodeString s = Inr (v, n)" by simp
      then show ?thesis by (rule decodeString_wf)
    next
      case int
      with eq ps have "decodeInteger s = Inr (v, n)" by simp
      then show ?thesis by (rule decodeInteger_wf)
    next
      case lst
      with eq ps have "decodeList (tl s) [] 0 = Inr (v, n)" by simp
      with 1(1)[OF lst] show ?thesis by simp
    next
      case dct
      with eq ps have "decodeDict (tl s) [] [] 0 = Inr (v, n)" by simp
      with 1(2)[OF dct] show ?thesis by simp
    next
      case oth
      with eq ps show ?thesis by (auto split: if_splits)
    qed
  qed
next
  case (2 inp ret untilIndex)
  show ?case
  proof (intro allI impI)
    fix v n
    assume r: "\<forall>x \<in> set ret. wf_value x"
      and eq: "decodeList inp ret untilIndex = Inr (v, n)"
    note ps = decodeList.simps[of inp ret untilIndex]
    show "wf_value v"
    proof (cases "inp = [] \<or> hd inp = CHR ''e''")
      case True
      with eq ps r show ?thesis by (auto split: if_splits)
    next
      case False
      then have ne: "inp \<noteq> []" "hd inp \<noteq> CHR ''e''" by auto
      from eq ps ne obtain d k where dk: "decodeBencode inp = Inr (d, k)"
        and rest: "\<not> (k < 0 \<or> int (length inp) < k)"
          "decodeList (drop (nat k) inp) (ret @ [d]) (untilIndex + k) = Inr (v, n)"
        by (auto split: sum.splits prod.splits if_splits)
      from 2(1)[OF ne] dk have "wf_value d" by blast
      with r have "\<forall>x \<in> set (ret @ [d]). wf_value x" by simp
      with 2(2)[OF ne dk refl rest(1)] rest(2) show ?thesis by blast
    qed
  qed
next
  case (3 inp ret key untilIndex)
  show ?case
  proof (intro allI impI)
    fix v n
    assume r: "distinct (map fst ret) \<and> (\<forall>x \<in> snd ` set ret. wf_value x)"
      and eq: "decodeDict inp ret key untilIndex = Inr (v, n)"
    note ps = decodeDict.simps[of inp ret key untilIndex]
    show "wf_value v"
    proof (cases "inp = [] \<or> hd inp = CHR ''e''")
      case True
      with eq ps r show ?thesis by (auto split: if_splits)
    next
      case False
      then have ne: "inp \<noteq> []" "hd inp \<noteq> CHR ''e''" by auto
      from eq ps ne obtain d k where dk: "decodeBencode inp = Inr (d, k)"
        by (auto split: sum.splits prod.splits)
      have k: "\<not> (k < 0 \<or> int (length inp) < k)"
        using eq ps ne dk by (auto split: if_splits bvalue.splits)
      from 3(1)[OF ne] dk have wd: "wf_value d" by blast
      show ?thesis
      proof (cases "key = []")
        case True
        with eq ps ne dk k obtain x1 where d: "d = BStr x1"
          and rest: "decodeDict (drop (nat k) inp) ret x1 (untilIndex + k) = Inr (v, n)"
          by (auto split: bvalue.splits)
        from 3(2)[OF ne dk refl True d k] r rest show ?thesis by blast
      next
        case False
        with eq ps ne dk k have rest:
          "decodeDict (drop (nat k) inp) (AList.update key d ret) [] (untilIndex + k)
             = Inr (v, n)"
          by simp
        have "distinct (map fst (AList.update key d ret))"
          using r by (simp add: distinct_update)
        moreover have "\<forall>x \<in> snd ` set (AList.update key d ret). wf_value x"
          using r wd by (auto dest!: set_update_cases)
        ultimately show ?thesis
          using 3(3)[OF ne dk refl False k] rest by blast
      qed
    qed
  qed
qed

lemma decode_wf: "decodeBencode s = Inr (v, n) \<Longrightarrow> wf_value v"
  using decode_wf_all(1) by blast

lemma bencode_wf_all:
  "(wf_value v \<longrightarrow> (\<exists>s. bencode v = Inr s))"
  "((\<forall>x \<in> set items. wf_value x) \<longrightarrow> (\<exists>s. bencodeItems items joined = Inr s))"
  "((set keys \<subseteq> fst ` set m \<and> (\<forall>x \<in> snd ` set m. wf_value x)) \<longrightarrow>
      (\<exists>s. bencodeEntries keys m joined' = Inr s))"
proof (induction v and items joined and keys m joined'
    rule: bencode_bencodeItems_bencodeEntries.induct)
  case (3 items)
  then show ?case by (auto split: sum.splits)
next
  case (4 m)
  then show ?case by (auto split: sum.splits)
next
  case (7 item items joined)
  then show ?case by (auto split: sum.splits)
next
  case (9 key keys m joined)
  show ?case
  proof (intro impI)
    assume a: "set (key # keys) \<subseteq> fst ` set m \<and> (\<forall>x \<in> snd ` set m. wf_value x)"
    then obtain v where v: "map_of m key = Some v"
      by (metis list.set_intros(1) subsetD weak_map_of_SomeI domD domI dom_map_of_conv_image_fst)
    then have "(key, v) \<in> set m" by (rule map_of_SomeD)
    with a have "wf_value v" by force
    with 9(2)[OF _ v] obtain bv where bv: "bencode v = Inr bv" by auto
    have k: "bencode (BStr key) = Inr (fmt_nat (length key) @ '':'' @ key)" by simp
    have cv: "(case map_of m key of None \<Rightarrow> Inl ErrUnexpectedType | Some x \<Rightarrow> bencode x)
        = Inr bv"
      using v bv by simp
    from 9(3)[OF k cv] a
    have "\<exists>s. bencodeEntries keys m (joined @ (fmt_nat (length key) @ '':'' @ key) @ bv) = Inr s"
      by simp
    then show "\<exists>s. bencodeEntries (key # keys) m joined = Inr s"
      by (simp add: v bv)
  qed
qed simp_all

lemma bencode_wf: "wf_value v \<Longrightarrow> \<exists>s. bencode v = Inr s"
  using bencode_wf_all(1) by blast

subsection \<open>Missing fields and the piece table\<close>

lemma assertDict_iff:
  "assertDict (map_of d k) = Inl PanicTypeAssert \<longleftrightarrow> \<not> has_dict d k"
  "assertDict x = Inr m \<longleftrightarrow> x = Some (BDict m)"
  by (auto simp: assertDict_def has_dict_def split: option.splits bvalue.splits)

lemma assertString_iff:
  "assertString (map_of d k) = Inl PanicTypeAssert \<longleftrightarrow> \<not> has_string d k"
  "assertString x = Inr s \<longleftrightarrow> x = Some (BStr s)"
  by (auto simp: assertString_def has_string_def split: option.splits bvalue.splits)

lemma assertInt_iff:
  "assertInt (map_of d k) = Inl PanicTypeAssert \<longleftrightarrow> \<not> has_int d k"
  "assertInt x = Inr i \<longleftrightarrow> x = Some (BInt i)"
  by (auto simp: assertInt_def has_int_def split: option.splits bvalue.splits)

lemma assert_Inl:
  "assertDict x = Inl e \<longleftrightarrow> e = PanicTypeAssert \<and> (\<forall>m. x \<noteq> Some (BDict m))"
  "assertString x = Inl e \<longleftrightarrow> e = PanicTypeAssert \<and> (\<forall>s. x \<noteq> Some (BStr s))"
  "assertInt x = Inl e \<longleftrightarrow> e = PanicTypeAssert \<and> (\<forall>i. x \<noteq> Some (BInt i))"
  by (auto simp: assertDict_def assertString_def assertInt_def split: option.splits bvalue.splits)

lemma pieceHashesLoop_panics:
  "length pieceStr mod 20 \<noteq> 0 \<Longrightarrow> i mod 20 = 0 \<Longrightarrow> i < length pieceStr \<Longrightarrow>
     pieceHashesLoop pieceStr i hashes = Inl PanicSlice"
proof (induction pieceStr i hashes rule: pieceHashesLoop.induct)
  case (1 pieceStr i hashes)
  show ?case
  proof (cases "i + 20 \<le> length pieceStr")
    case False
    with 1(4) show ?thesis
      by (subst pieceHashesLoop.simps) (simp add: go_slice_def eachPieceSize_def)
  next
    case True
    then obtain sl where sl: "go_slice pieceStr (int i) (int (i + eachPieceSize)) = Inr sl"
      by (simp add: go_slice_def eachPieceSize_def)
    have "i + 20 \<noteq> length pieceStr"
    proof
      assume "i + 20 = length pieceStr"
      then have "length pieceStr mod 20 = (i + 20) mod 20" by simp
      also have "\<dots> = 0" using 1(3) by simp
      finally show False using 1(2) by simp
    qed
    with True have lt: "i + eachPieceSize < length pieceStr"
      by (simp add: eachPieceSize_def)
    have m: "(i + eachPieceSize) mod 20 = 0" using 1(3) by (simp add: eachPieceSize_def)
    from 1(1)[OF 1(4) sl 1(2) m lt] 1(4) sl show ?thesis
      by (subst pieceHashesLoop.simps) simp
  qed
qed

lemma pieceHashesLoop_ok:
  "length pieceStr mod 20 = 0 \<Longrightarrow> i mod 20 = 0 \<Longrightarrow>
     \<exists>h. pieceHashesLoop pieceStr i hashes = Inr h"
proof (induction pieceStr i hashes rule: pieceHashesLoop.induct)
  case (1 pieceStr i hashes)
  show ?case
  proof (cases "i < length pieceStr")
    case False
    then show ?thesis by (subst pieceHashesLoop.simps) simp
  next
    case True
    have "i + 20 \<le> length pieceStr"
    proof (rule ccontr)
      assume "\<not> i + 20 \<le> length pieceStr"
      with True have "length pieceStr - i < 20" "0 < length pieceStr - i" by simp_all
      moreover have "(length pieceStr - i) mod 20 = 0"
        using 1(2,3) True by (simp add: mod_eq_0_iff_dvd)
      ultimately show False by simp
    qed
    then obtain sl where sl: "go_slice pieceStr (int i) (int (i + eachPieceSize)) = Inr sl"
      by (simp add: go_slice_def eachPieceSize_def)
    have m: "(i + eachPieceSize) mod 20 = 0" using 1(3) by (simp add: eachPieceSize_def)
    from 1(1)[OF True sl 1(2) m] True sl show ?thesis
      by (subst pieceHashesLoop.simps) simp
  qed
qed

lemma has_dictD: "has_dict d k \<Longrightarrow> \<exists>m. map_of d k = Some (BDict m)"
  by (auto simp: has_dict_def split: option.splits bvalue.splits)

lemma has_stringD: "has_string d k \<Longrightarrow> \<exists>s. map_of d k = Some (BStr s)"
  by (auto simp: has_string_def split: option.splits bvalue.splits)

lemma has_intD: "has_int d k \<Longrightarrow> \<exists>i. map_of d k = Some (BInt i)"
  by (auto simp: has_int_def split: option.splits bvalue.splits)

lemma wf_value_lookup:
  "wf_value (BDict d) \<Longrightarrow> map_of d k = Some v \<Longrightarrow> wf_value v"
  by (auto dest!: map_of_SomeD)

lemma parseToInfo_top:
  assumes "decodeBencode content = Inr (BDict decoded, n)"
  shows "parseToInfo sha1Sum content =
     (case assertDict (map_of decoded ''info'') of
        Inl p \<Rightarrow> Inl p
      | Inr metaInfo \<Rightarrow>
     (case assertString (map_of decoded ''announce'') of
        Inl p \<Rightarrow> Inl p
      | Inr trackerURL \<Rightarrow>
     (case assertInt (map_of metaInfo ''length'') of
        Inl p \<Rightarrow> Inl p
      | Inr len \<Rightarrow>
     (case assertInt (map_of metaInfo ''piece length'') of
        Inl p \<Rightarrow> Inl p
      | Inr pieceLength \<Rightarrow>
     (case bencode (BDict metaInfo) of
        Inl err \<Rightarrow> Inl err
      | Inr bencoded \<Rightarrow>
     (case assertString (map_of metaInfo ''pieces'') of
        Inl p \<Rightarrow> Inl p
      | Inr pieceStr \<Rightarrow>
     (case pieceHashesLoop pieceStr 0 [] of
        Inl p \<Rightarrow> Inl p
      | Inr hashes \<Rightarrow>
          Inr \<lparr>TrackerURL = trackerURL, Length = len,
               InfoHash = digest_bytes (sha1Sum bencoded),
               PieceLength = pieceLength, PieceHashes = hashes\<rparr>)))))))"
  using assms by (simp add: parseToInfo_def decodeTorrentFile_def assertDict_def)

lemma parseToInfo_fields:
  assumes dec: "decodeBencode content = Inr (BDict decoded, n)"
    and i: "map_of decoded ''info'' = Some (BDict m)"
    and a: "map_of decoded ''announce'' = Some (BStr url)"
    and l: "map_of m ''length'' = Some (BInt len)"
    and p: "map_of m ''piece length'' = Some (BInt pl)"
  shows "\<exists>b. bencode (BDict m) = Inr b \<and> parseToInfo sha1Sum content =
     (case assertString (map_of m ''pieces'') of
        Inl p \<Rightarrow> Inl p
      | Inr pieceStr \<Rightarrow>
     (case pieceHashesLoop pieceStr 0 [] of
        Inl p \<Rightarrow> Inl p
      | Inr hashes \<Rightarrow>
          Inr \<lparr>TrackerURL = url, Length = len, InfoHash = digest_bytes (sha1Sum b),
               PieceLength = pl, PieceHashes = hashes\<rparr>))"
proof -
  from decode_wf[OF dec] have "wf_value (BDict decoded)" .
  from wf_value_lookup[OF this i] bencode_wf obtain b where b: "bencode (BDict m) = Inr b"
    by blast
  have "assertDict (map_of decoded ''info'') = Inr m" using i by (simp add: assertDict_def)
  moreover have "assertString (map_of decoded ''announce'') = Inr url"
    using a by (simp add: assertString_def)
  moreover have "assertInt (map_of m ''length'') = Inr len" using l by (simp add: assertInt_def)
  moreover have "assertInt (map_of m ''piece length'') = Inr pl"
    using p by (simp add: assertInt_def)
  ultimately show ?thesis using b by (simp only: parseToInfo_top[OF dec] sum.case) blast
qed

lemma torrent_no_announce:
  "decodeBencode ''d4:infod6:lengthi1e12:piece lengthi1e6:pieces0:ee''
     = Inr (BDict [(''info'', BDict [(''length'', BInt 1), (''piece length'', BInt 1),
                                       (''pieces'', BStr [])])], 47)"
  by (simp add: dec_eval)

lemma torrent_bad_pieces:
  "decodeBencode ''d8:announce1:a4:infod6:lengthi1e12:piece lengthi1e6:pieces3:abcee''
     = Inr (BDict [(''announce'', BStr ''a''),
                   (''info'', BDict [(''length'', BInt 1), (''piece length'', BInt 1),
                                       (''pieces'', BStr ''abc'')])], 63)"
  by (simp add: dec_eval)

lemma torrent_good:
  "decodeBencode ''d8:announce1:a4:infod6:lengthi1e12:piece lengthi1e6:pieces0:ee''
     = Inr (BDict [(''announce'', BStr ''a''),
                   (''info'', BDict [(''length'', BInt 1), (''piece length'', BInt 1),
                                       (''pieces'', BStr [])])], 60)"
  by (simp add: dec_eval)

text \<open>
  Claim C8, as stated, has the deriver return an error value for a torrent without the
  key \<open>announce\<close>.  On such a torrent \<open>parseToInfo\<close> ends in the run-time panic of a
  failed type assertion.
\<close>

theorem C8_counterexample:
  "parseToInfo (of_nat \<circ> length) ''d4:infod6:lengthi1e12:piece lengthi1e6:pieces0:ee''
     = Inl PanicTypeAssert
   \<and> is_panic PanicTypeAssert"
  by (simp add: parseToInfo_top[OF torrent_no_announce] assertDict_def assertString_def
      is_panic_def)

text \<open>
  Claim C8, amended: on torrent bytes that decode to a dictionary lacking one of the keys
  \<open>info\<close>, \<open>announce\<close> and, inside \<open>info\<close>, \<open>length\<close>, \<open>piece length\<close> and \<open>pieces\<close>, or
  holding one of them with a value of another kind, \<open>parseToInfo\<close> returns no error value
  but ends in the panic of a failed type assertion; when the keys are there and the length
  of \<open>pieces\<close> is not a multiple of 20, it ends in the panic of a slice expression out of
  range; when the keys are there and the length of \<open>pieces\<close> is a multiple of 20, it
  returns the metainfo.
\<close>

theorem C8_missing_field_panics:
  "(decodeBencode content = Inr (BDict decoded, n) \<and>
      (\<not> has_dict decoded ''info'' \<or> \<not> has_string decoded ''announce'' \<or>
       (\<exists>m. map_of decoded ''info'' = Some (BDict m) \<and>
            (\<not> has_int m ''length'' \<or> \<not> has_int m ''piece length'' \<or>
             \<not> has_string m ''pieces'')))
     \<longrightarrow> parseToInfo sha1Sum content = Inl PanicTypeAssert)
   \<and> (decodeBencode content = Inr (BDict decoded, n) \<and> has_string decoded ''announce'' \<and>
      map_of decoded ''info'' = Some (BDict m) \<and> has_int m ''length'' \<and>
      has_int m ''piece length'' \<and> map_of m ''pieces'' = Some (BStr pieceStr) \<and>
      length pieceStr mod 20 \<noteq> 0
     \<longrightarrow> parseToInfo sha1Sum content = Inl PanicSlice)
   \<and> (decodeBencode content = Inr (BDict decoded, n) \<and> has_string decoded ''announce'' \<and>
      map_of decoded ''info'' = Some (BDict m) \<and> has_int m ''length'' \<and>
      has_int m ''piece length'' \<and> map_of m ''pieces'' = Some (BStr pieceStr) \<and>
      length pieceStr mod 20 = 0
     \<longrightarrow> (\<exists>info. parseToInfo sha1Sum content = Inr info))"
proof (intro conjI impI)
  assume h: "decodeBencode content = Inr (BDict decoded, n) \<and>
      (\<not> has_dict decoded ''info'' \<or> \<not> has_string decoded ''announce'' \<or>
       (\<exists>m. map_of decoded ''info'' = Some (BDict m) \<and>
            (\<not> has_int m ''length'' \<or> \<not> has_int m ''piece length'' \<or>
             \<not> has_string m ''pieces'')))"
  then have dec: "decodeBencode content = Inr (BDict decoded, n)" by blast
  note top = parseToInfo_top[OF dec, of sha1Sum]
  show "parseToInfo sha1Sum content = Inl PanicTypeAssert"
  proof (cases "has_dict decoded ''info''")
    case False
    then have "assertDict (map_of decoded ''info'') = Inl PanicTypeAssert"
      by (simp add: assertDict_iff)
    then show ?thesis by (simp add: top)
  next
    case True
    then obtain m where m: "map_of decoded ''info'' = Some (BDict m)"
      by (auto dest: has_dictD)
    then have am: "assertDict (map_of decoded ''info'') = Inr m" by (simp add: assertDict_def)
    show ?thesis
    proof (cases "has_string decoded ''announce''")
      case False
      then have "assertString (map_of decoded ''announce'') = Inl PanicTypeAssert"
        by (simp add: assertString_iff)
      with am show ?thesis by (simp add: top)
    next
      case ann: True
      then obtain url where url: "map_of decoded ''announce'' = Some (BStr url)"
        by (auto dest: has_stringD)
      show ?thesis
      proof (cases "has_int m ''length''")
        case False
        then have "assertInt (map_of m ''length'') = Inl PanicTypeAssert"
          by (simp add: assertInt_iff)
        with am url show ?thesis by (simp add: top assertString_def)
      next
        case len: True
        then obtain l where l: "map_of m ''length'' = Some (BInt l)" by (auto dest: has_intD)
        show ?thesis
        proof (cases "has_int m ''piece length''")
          case False
          then have "assertInt (map_of m ''piece length'') = Inl PanicTypeAssert"
            by (simp add: assertInt_iff)
          with am url l show ?thesis by (simp add: top assertString_def assertInt_def)
        next
          case pl: True
          then obtain p where p: "map_of m ''piece length'' = Some (BInt p)"
            by (auto dest: has_intD)
          from h True ann len pl m have "\<not> has_string m ''pieces''" by auto
          then have np: "assertString (map_of m ''pieces'') = Inl PanicTypeAssert"
            by (simp add: assertString_iff)
          from parseToInfo_fields[OF dec m url l p, of sha1Sum] np show ?thesis by auto
        qed
      qed
    qed
  qed
next
  assume h: "decodeBencode content = Inr (BDict decoded, n) \<and> has_string decoded ''announce'' \<and>
      map_of decoded ''info'' = Some (BDict m) \<and> has_int m ''length'' \<and>
      has_int m ''piece length'' \<and> map_of m ''pieces'' = Some (BStr pieceStr) \<and>
      length pieceStr mod 20 \<noteq> 0"
  from h has_stringD[of decoded "''announce''"] obtain url
    where f1: "map_of decoded ''announce'' = Some (BStr url)" by blast
  from h has_intD[of m "''length''"] obtain l
    where f2: "map_of m ''length'' = Some (BInt l)" by blast
  from h has_intD[of m "''piece length''"] obtain p
    where f3: "map_of m ''piece length'' = Some (BInt p)" by blast
  note f = f1 f2 f3
  from h have "0 < length pieceStr" by auto
  with h have "pieceHashesLoop pieceStr 0 [] = Inl PanicSlice"
    by (intro pieceHashesLoop_panics) simp_all
  with parseToInfo_fields[of content decoded n m url l p sha1Sum] h f
  show "parseToInfo sha1Sum content = Inl PanicSlice"
    by (auto simp: assertString_def)
next
  assume h: "decodeBencode content = Inr (BDict decoded, n) \<and> has_string decoded ''announce'' \<and>
      map_of decoded ''info'' = Some (BDict m) \<and> has_int m ''length'' \<and>
      has_int m ''piece length'' \<and> map_of m ''pieces'' = Some (BStr pieceStr) \<and>
      length pieceStr mod 20 = 0"
  from h has_stringD[of decoded "''announce''"] obtain url
    where f1: "map_of decoded ''announce'' = Some (BStr url)" by blast
  from h has_intD[of m "''length''"] obtain l
    where f2: "map_of m ''length'' = Some (BInt l)" by blast
  from h has_intD[of m "''piece length''"] obtain p
    where f3: "map_of m ''piece length'' = Some (BInt p)" by blast
  note f = f1 f2 f3
  from h pieceHashesLoop_ok[of pieceStr 0 "[]"] obtain hs
    where "pieceHashesLoop pieceStr 0 [] = Inr hs" by auto
  with parseToInfo_fields[of content decoded n m url l p sha1Sum] h f
  show "\<exists>info. parseToInfo sha1Sum content = Inr info"
    by (auto simp: assertString_def)
qed

theorem C8_witness:
  "decodeBencode ''d4:infod6:lengthi1e12:piece lengthi1e6:pieces0:ee''
     = Inr (BDict [(''info'', BDict [(''length'', BInt 1), (''piece length'', BInt 1),
                                       (''pieces'', BStr [])])], 47)
   \<and> \<not> has_string [(''info'', BDict [(''length'', BInt 1), (''piece length'', BInt 1),
                                       (''pieces'', BStr [])])] ''announce''
   \<and> parseToInfo (of_nat \<circ> length) ''d4:infod6:lengthi1e12:piece lengthi1e6:pieces0:ee''
       = Inl PanicTypeAssert
   \<and> length ''abc'' mod 20 \<noteq> 0
   \<and> parseToInfo (of_nat \<circ> length)
         ''d8:announce1:a4:infod6:lengthi1e12:piece lengthi1e6:pieces3:abcee''
       = Inl PanicSlice
   \<and> length ([] :: string) mod 20 = 0
   \<and> (\<exists>info. parseToInfo (of_nat \<circ> length)
         ''d8:announce1:a4:infod6:lengthi1e12:piece lengthi1e6:pieces0:ee'' = Inr info)"
proof -
  let ?m0 = "[(''length'', BInt 1), (''piece length'', BInt 1), (''pieces'', BStr [])]"
  let ?m3 = "[(''length'', BInt 1), (''piece length'', BInt 1), (''pieces'', BStr ''abc'')]"
  have h1: "\<not> has_string [(''info'', BDict ?m0)] ''announce''"
    by (simp add: has_string_def)
  have r1: "parseToInfo (of_nat \<circ> length) ''d4:infod6:lengthi1e12:piece lengthi1e6:pieces0:ee''
       = Inl PanicTypeAssert"
    using C8_missing_field_panics[where content = "''d4:infod6:lengthi1e12:piece lengthi1e6:pieces0:ee''"
        and decoded = "[(''info'', BDict ?m0)]" and n = 47 and sha1Sum = "of_nat \<circ> length",
        THEN conjunct1] torrent_no_announce h1
    by blast
  have h2: "has_string [(''announce'', BStr ''a''), (''info'', BDict ?m3)] ''announce''"
    "map_of [(''announce'', BStr ''a''), (''info'', BDict ?m3)] ''info'' = Some (BDict ?m3)"
    "has_int ?m3 ''length''" "has_int ?m3 ''piece length''"
    "map_of ?m3 ''pieces'' = Some (BStr ''abc'')" "length ''abc'' mod 20 \<noteq> 0"
    by (simp_all add: has_string_def has_int_def)
  have r2: "parseToInfo (of_nat \<circ> length)
         ''d8:announce1:a4:infod6:lengthi1e12:piece lengthi1e6:pieces3:abcee''
       = Inl PanicSlice"
    using C8_missing_field_panics[where content =
          "''d8:announce1:a4:infod6:lengthi1e12:piece lengthi1e6:pieces3:abcee''"
        and decoded = "[(''announce'', BStr ''a''), (''info'', BDict ?m3)]" and n = 63
        and sha1Sum = "of_nat \<circ> length" and m = ?m3 and pieceStr = "''abc''",
        THEN conjunct2, THEN conjunct1] torrent_bad_pieces h2
    by blast
  have h3: "has_string [(''announce'', BStr ''a''), (''info'', BDict ?m0)] ''announce''"
    "map_of [(''announce'', BStr ''a''), (''info'', BDict ?m0)] ''info'' = Some (BDict ?m0)"
    "has_int ?m0 ''length''" "has_int ?m0 ''piece length''"
    "map_of ?m0 ''pieces'' = Some (BStr [])" "length ([] :: string) mod 20 = 0"
    by (simp_all add: has_string_def has_int_def)
  have r3: "\<exists>info. parseToInfo (of_nat \<circ> length)
         ''d8:announce1:a4:infod6:lengthi1e12:piece lengthi1e6:pieces0:ee'' = Inr info"
    using C8_missing_field_panics[where content =
          "''d8:announce1:a4:infod6:lengthi1e12:piece lengthi1e6:pieces0:ee''"
        and decoded = "[(''announce'', BStr ''a''), (''info'', BDict ?m0)]" and n = 60
        and sha1Sum = "of_nat \<circ> length" and m = ?m0 and pieceStr = "[]",
        THEN conjunct2, THEN conjunct2] torrent_good h3
    by blast
  from torrent_no_announce h1 r1 h2(6) r2 h3(6) r3 show ?thesis by blast
qed

subsection \<open>Info-hash\<close>

lemma map_insort_key_fst:
  "map fst (insort_key fst x ys) = insort (fst x) (map fst ys)"
  by (induction ys) simp_all

lemma map_sort_key_fst: "map fst (sort_key fst xs) = sort (map fst xs)"
  by (induction xs) (simp_all add: map_insort_key_fst)

lemma map_of_sort_key:
  "distinct (map fst xs) \<Longrightarrow> map_of (sort_key fst xs) = map_of xs"
proof -
  assume d: "distinct (map fst xs)"
  have "distinct (map fst (sort_key fst xs))" using d by (simp add: map_sort_key_fst)
  moreover have "set (sort_key fst xs) = set xs" by simp
  ultimately show ?thesis using d by (simp add: map_of_inject_set)
qed

lemma map_of_canon_entries:
  "map_of (map (\<lambda>kv. (fst kv, canon (snd kv))) m) k = map_option canon (map_of m k)"
  by (induction m) auto

lemma bencodeItems_canon:
  "(\<forall>x \<in> set items. bencode (canon x) = bencode x) \<Longrightarrow>
     bencodeItems (map canon items) joined = bencodeItems items joined"
  by (induction items arbitrary: joined) (simp_all split: sum.splits)

lemma bencodeEntries_canon:
  "(\<forall>k v. map_of m k = Some v \<longrightarrow> bencode (canon v) = bencode v) \<Longrightarrow>
   (\<forall>k. map_of m' k = map_option canon (map_of m k)) \<Longrightarrow>
     bencodeEntries keys m' joined = bencodeEntries keys m joined"
proof (induction keys arbitrary: joined)
  case Nil
  then show ?case by simp
next
  case (Cons key keys)
  show ?case
  proof (cases "map_of m key")
    case None
    with Cons.prems(2) have "map_of m' key = None" by simp
    with None show ?thesis by simp
  next
    case (Some v)
    with Cons.prems(2) have "map_of m' key = Some (canon v)" by simp
    moreover from Some Cons.prems(1) have "bencode (canon v) = bencode v" by blast
    ultimately show ?thesis using Some Cons.IH[OF Cons.prems] by (simp split: sum.splits)
  qed
qed

lemma bencode_canon: "wf_value v \<Longrightarrow> bencode (canon v) = bencode v"
proof (induction v)
  case (BList items)
  then have "\<forall>x \<in> set items. bencode (canon x) = bencode x" by simp
  then show ?case by (simp add: bencodeItems_canon)
next
  case (BDict m)
  let ?m' = "sort_key fst (map (\<lambda>kv. (fst kv, canon (snd kv))) m)"
  have d: "distinct (map fst m)" using BDict.prems by simp
  have keys: "map fst ?m' = sort (map fst m)"
    by (simp add: map_sort_key_fst comp_def)
  have vals: "\<forall>k v. map_of m k = Some v \<longrightarrow> bencode (canon v) = bencode v"
  proof (intro allI impI)
    fix k v assume "map_of m k = Some v"
    then have kv: "(k, v) \<in> set m" by (rule map_of_SomeD)
    then have "wf_value v" using BDict.prems by force
    with BDict.IH[OF kv, of v] show "bencode (canon v) = bencode v" by simp
  qed
  have lookups: "\<forall>k. map_of ?m' k = map_option canon (map_of m k)"
    using d by (simp add: map_of_sort_key comp_def map_of_canon_entries)
  have "bencodeEntries (sort (map fst ?m')) ?m' [] = bencodeEntries (sort (map fst m)) m []"
    unfolding keys using bencodeEntries_canon[OF vals lookups] by (simp add: sorted_sort_id)
  then show ?case by simp
qed simp_all

lemma parseToInfo_InfoHash:
  assumes dec: "decodeBencode content = Inr (BDict decoded, n)"
    and v: "map_of decoded ''info'' = Some v"
    and ok: "parseToInfo sha1Sum content = Inr info"
  shows "InfoHash info = digest_bytes (sha1Sum (out_of (bencode v)))"
proof -
  from ok obtain m where m: "assertDict (map_of decoded ''info'') = Inr m"
    unfolding parseToInfo_top[OF dec] by (auto split: sum.splits)
  with v have vm: "v = BDict m" by (simp add: assertDict_iff)
  from ok m obtain b where b: "bencode (BDict m) = Inr b"
    and h: "InfoHash info = digest_bytes (sha1Sum b)"
    unfolding parseToInfo_top[OF dec] by (auto split: sum.splits)
  from b h vm show ?thesis by (simp add: out_of_def)
qed

lemma same_value_bencode:
  "wf_value a \<Longrightarrow> wf_value b \<Longrightarrow> same_value a b \<Longrightarrow> bencode a = bencode b"
  using bencode_canon[of a] bencode_canon[of b] by (simp add: same_value_def)

lemma same_bindings_same_value:
  assumes "distinct (map fst xs)" "distinct (map fst ys)" "map_of xs = map_of ys"
  shows "same_value (BDict xs) (BDict ys)"
proof -
  let ?f = "\<lambda>kv. (fst kv, canon (snd kv))"
  have s: "set xs = set ys" using assms by (simp add: map_of_inject_set)
  have "sort_key fst (map ?f xs) = sort_key fst (map ?f ys)"
  proof (rule map_sorted_distinct_set_unique[where f = fst])
    show "inj_on fst (set (sort_key fst (map ?f xs)) \<union> set (sort_key fst (map ?f ys)))"
    proof -
      have "inj_on fst (set xs)" using assms(1) by (simp add: distinct_map)
      then have "inj_on fst (?f ` set xs)"
        by (auto simp: inj_on_def)
      then show ?thesis using s by simp
    qed
    show "sorted (map fst (sort_key fst (map ?f xs)))" by (simp add: map_sort_key_fst)
    show "distinct (map fst (sort_key fst (map ?f xs)))"
      using assms(1) by (simp add: map_sort_key_fst comp_def)
    show "sorted (map fst (sort_key fst (map ?f ys)))" by (simp add: map_sort_key_fst)
    show "distinct (map fst (sort_key fst (map ?f ys)))"
      using assms(2) by (simp add: map_sort_key_fst comp_def)
    show "set (sort_key fst (map ?f xs)) = set (sort_key fst (map ?f ys))"
      using s by simp
  qed
  then show ?thesis by (simp add: same_value_def)
qed

lemma torrent_b:
  "decodeBencode ''d8:announce1:b4:infod12:piece lengthi1e6:lengthi1e6:pieces0:ee''
     = Inr (BDict [(''announce'', BStr ''b''),
                   (''info'', BDict [(''piece length'', BInt 1), (''length'', BInt 1),
                                       (''pieces'', BStr [])])], 60)"
  by (simp add: dec_eval)

lemma parse_torrent_good:
  "parseToInfo (of_nat \<circ> length)
     ''d8:announce1:a4:infod6:lengthi1e12:piece lengthi1e6:pieces0:ee''
   = Inr \<lparr>TrackerURL = ''a'', Length = 1, InfoHash = digest_bytes 41,
          PieceLength = 1, PieceHashes = []\<rparr>"
  by (simp add: parseToInfo_top[OF torrent_good] assertDict_def assertString_def assertInt_def
      enc_eval pieceHashesLoop.simps)

lemma parse_torrent_b:
  "parseToInfo (of_nat \<circ> length)
     ''d8:announce1:b4:infod12:piece lengthi1e6:lengthi1e6:pieces0:ee''
   = Inr \<lparr>TrackerURL = ''b'', Length = 1, InfoHash = digest_bytes 41,
          PieceLength = 1, PieceHashes = []\<rparr>"
  by (simp add: parseToInfo_top[OF torrent_b] assertDict_def assertString_def assertInt_def
      enc_eval pieceHashesLoop.simps)

lemma same_value_example:
  "same_value (BDict [(''length'', BInt 1), (''piece length'', BInt 1), (''pieces'', BStr [])])
     (BDict [(''piece length'', BInt 1), (''length'', BInt 1), (''pieces'', BStr [])])"
  by (simp add: same_value_def)

text \<open>
  Claim C9: the info-hash of a derived metainfo is the digest of the encoding of the value
  under \<open>info\<close>, 20 bytes long; so two torrents whose \<open>info\<close> values are the same Go value
  (whatever the order in which their maps list the entries, and whatever the rest of the
  torrent holds) have the same info-hash, and so have two derivations from the same bytes.
\<close>

theorem C9_info_hash_depends_on_info_only:
  "(decodeBencode c1 = Inr (BDict d1, n1) \<and> decodeBencode c2 = Inr (BDict d2, n2)
    \<and> map_of d1 ''info'' = Some v1 \<and> map_of d2 ''info'' = Some v2 \<and> same_value v1 v2
    \<and> parseToInfo sha1Sum c1 = Inr info1 \<and> parseToInfo sha1Sum c2 = Inr info2
    \<longrightarrow> InfoHash info1 = InfoHash info2
        \<and> InfoHash info1 = digest_bytes (sha1Sum (out_of (bencode v1)))
        \<and> length (InfoHash info1) = 20)
   \<and> (c1 = c2 \<and> parseToInfo sha1Sum c1 = Inr info1 \<and> parseToInfo sha1Sum c2 = Inr info2
    \<longrightarrow> InfoHash info1 = InfoHash info2)"
proof (intro conjI impI)
  assume h: "decodeBencode c1 = Inr (BDict d1, n1) \<and> decodeBencode c2 = Inr (BDict d2, n2)
    \<and> map_of d1 ''info'' = Some v1 \<and> map_of d2 ''info'' = Some v2 \<and> same_value v1 v2
    \<and> parseToInfo sha1Sum c1 = Inr info1 \<and> parseToInfo sha1Sum c2 = Inr info2"
  then have dec1: "decodeBencode c1 = Inr (BDict d1, n1)"
    and dec2: "decodeBencode c2 = Inr (BDict d2, n2)"
    and i1: "map_of d1 ''info'' = Some v1" and i2: "map_of d2 ''info'' = Some v2"
    and sv: "same_value v1 v2"
    and p1: "parseToInfo sha1Sum c1 = Inr info1" and p2: "parseToInfo sha1Sum c2 = Inr info2"
    by blast+
  have w1: "wf_value v1" by (rule wf_value_lookup[OF decode_wf[OF dec1] i1])
  have w2: "wf_value v2" by (rule wf_value_lookup[OF decode_wf[OF dec2] i2])
  have e: "bencode v1 = bencode v2" by (rule same_value_bencode[OF w1 w2 sv])
  have h1: "InfoHash info1 = digest_bytes (sha1Sum (out_of (bencode v1)))"
    by (rule parseToInfo_InfoHash[OF dec1 i1 p1])
  have h2: "InfoHash info2 = digest_bytes (sha1Sum (out_of (bencode v2)))"
    by (rule parseToInfo_InfoHash[OF dec2 i2 p2])
  show "InfoHash info1 = InfoHash info2" using h1 h2 e by simp
  show "InfoHash info1 = digest_bytes (sha1Sum (out_of (bencode v1)))" by (rule h1)
  show "length (InfoHash info1) = 20" using h1 by (simp add: length_digest_bytes)
next
  assume "c1 = c2 \<and> parseToInfo sha1Sum c1 = Inr info1 \<and> parseToInfo sha1Sum c2 = Inr info2"
  then show "InfoHash info1 = InfoHash info2" by auto
qed

theorem C9_witness:
  "decodeBencode ''d8:announce1:a4:infod6:lengthi1e12:piece lengthi1e6:pieces0:ee''
     = Inr (BDict [(''announce'', BStr ''a''),
                   (''info'', BDict [(''length'', BInt 1), (''piece length'', BInt 1),
                                       (''pieces'', BStr [])])], 60)
   \<and> decodeBencode ''d8:announce1:b4:infod12:piece lengthi1e6:lengthi1e6:pieces0:ee''
     = Inr (BDict [(''announce'', BStr ''b''),
                   (''info'', BDict [(''piece length'', BInt 1), (''length'', BInt 1),
                                       (''pieces'', BStr [])])], 60)
   \<and> same_value
        (BDict [(''length'', BInt 1), (''piece length'', BInt 1), (''pieces'', BStr [])])
        (BDict [(''piece length'', BInt 1), (''length'', BInt 1), (''pieces'', BStr [])])
   \<and> parseToInfo (of_nat \<circ> length)
        ''d8:announce1:a4:infod6:lengthi1e12:piece lengthi1e6:pieces0:ee''
       = Inr \<lparr>TrackerURL = ''a'', Length = 1, InfoHash = digest_bytes 41,
              PieceLength = 1, PieceHashes = []\<rparr>
   \<and> parseToInfo (of_nat \<circ> length)
        ''d8:announce1:b4:infod12:piece lengthi1e6:lengthi1e6:pieces0:ee''
       = Inr \<lparr>TrackerURL = ''b'', Length = 1, InfoHash = digest_bytes 41,
              PieceLength = 1, PieceHashes = []\<rparr>
   \<and> InfoHash \<lparr>TrackerURL = ''a'', Length = 1, InfoHash = digest_bytes 41,
              PieceLength = 1, PieceHashes = []\<rparr>
       = InfoHash \<lparr>TrackerURL = ''b'', Length = 1, InfoHash = digest_bytes 41,
              PieceLength = 1, PieceHashes = []\<rparr>
   \<and> InfoHash \<lparr>TrackerURL = ''a'', Length = 1, InfoHash = digest_bytes 41,
              PieceLength = 1, PieceHashes = []\<rparr>
       = digest_bytes ((of_nat \<circ> length) (out_of (bencode
           (BDict [(''length'', BInt 1), (''piece length'', BInt 1), (''pieces'', BStr [])]))))"
proof -
  let ?c1 = "''d8:announce1:a4:infod6:lengthi1e12:piece lengthi1e6:pieces0:ee''"
  let ?c2 = "''d8:announce1:b4:infod12:piece lengthi1e6:lengthi1e6:pieces0:ee''"
  let ?v1 = "BDict [(''length'', BInt 1), (''piece length'', BInt 1), (''pieces'', BStr [])]"
  let ?v2 = "BDict [(''piece length'', BInt 1), (''length'', BInt 1), (''pieces'', BStr [])]"
  let ?d1 = "[(''announce'', BStr ''a''), (''info'', ?v1)]"
  let ?d2 = "[(''announce'', BStr ''b''), (''info'', ?v2)]"
  let ?i1 = "\<lparr>TrackerURL = ''a'', Length = 1, InfoHash = digest_bytes 41,
              PieceLength = 1, PieceHashes = []\<rparr>"
  let ?i2 = "\<lparr>TrackerURL = ''b'', Length = 1, InfoHash = digest_bytes 41,
              PieceLength = 1, PieceHashes = []\<rparr>"
  have l1: "map_of ?d1 ''info'' = Some ?v1" by simp
  have l2: "map_of ?d2 ''info'' = Some ?v2" by simp
  have "InfoHash ?i1 = InfoHash ?i2
      \<and> InfoHash ?i1 = digest_bytes ((of_nat \<circ> length) (out_of (bencode ?v1)))"
    using C9_info_hash_depends_on_info_only[where ?c1.0 = ?c1 and ?c2.0 = ?c2
        and ?d1.0 = ?d1 and ?d2.0 = ?d2 and ?n1.0 = 60 and ?n2.0 = 60
        and ?v1.0 = ?v1 and ?v2.0 = ?v2 and sha1Sum = "of_nat \<circ> length"
        and ?info1.0 = ?i1 and ?info2.0 = ?i2, THEN conjunct1]
      torrent_good torrent_b l1 l2 same_value_example parse_torrent_good parse_torrent_b
    by blast
  with torrent_good torrent_b same_value_example parse_torrent_good parse_torrent_b
  show ?thesis by blast
qed

section \<open>Properties of the peer wire client\<close>

subsection \<open>Handshake\<close>

lemma parseToInfo_InfoHash_length:
  "parseToInfo sha1Sum content = Inr info \<Longrightarrow> length (InfoHash info) = 20"
  by (auto simp: parseToInfo_def length_digest_bytes split: sum.splits)

lemma length_handshakeMessage: "length (handshakeMessage ih) = 48 + length ih"
  by (simp add: handshakeMessage_def protocolStrLengthStr_def protocolStr_def
      reservedBytesStr_def peerID_def)

lemma handshake_reply:
  assumes p: "parseToInfo sha1Sum content = Inr info" and r: "length reply = 68"
  shows "handshake sha1Sum \<lparr>incoming = reply @ rest, outgoing = out\<rparr> content
     = Inr (drop 48 reply,
            \<lparr>incoming = rest, outgoing = out @ [handshakeMessage (InfoHash info)]\<rparr>)"
proof -
  have l: "length (handshakeMessage (InfoHash info)) = 68"
    using parseToInfo_InfoHash_length[OF p] by (simp add: length_handshakeMessage)
  have ne: "reply \<noteq> []" using r by auto
  have hne: "handshakeMessage (InfoHash info) \<noteq> []" using l by auto
  show ?thesis
    using p r ne hne
    by (simp add: handshake_def Let_def l conn_Write_def conn_Read_def go_slice_def peerID_def)
qed

text \<open>
  Claim C5 on the message built by \<open>handshake\<close>: it is 68 bytes long for a 20-byte
  info-hash, starts with the byte 19 and the protocol name, and ends with the info-hash and
  the local peer identifier; its eight reserved bytes are the text \<open>00000000\<close>, that is
  eight bytes of value \<open>0x30\<close>, and not eight zero bytes.  After writing the message,
  \<open>handshake\<close> takes 68 bytes of the reply and returns the last 20 of them.
\<close>

theorem C5_handshake_layout:
  "length (handshakeMessage (digest_bytes d)) = 68
   \<and> take 20 (handshakeMessage ih) = CHR 0x13 # ''BitTorrent protocol''
   \<and> take 8 (drop 20 (handshakeMessage ih)) = ''00000000''
   \<and> take 8 (drop 20 (handshakeMessage ih))
       \<noteq> [CHR 0x00, CHR 0x00, CHR 0x00, CHR 0x00, CHR 0x00, CHR 0x00, CHR 0x00, CHR 0x00]
   \<and> hd (drop 20 (handshakeMessage ih)) = CHR 0x30
   \<and> drop 28 (handshakeMessage ih) = ih @ ''00112233445566778899''
   \<and> (parseToInfo sha1Sum content = Inr info \<and> length reply = 68 \<longrightarrow>
        handshake sha1Sum \<lparr>incoming = reply @ rest, outgoing = out\<rparr> content
          = Inr (drop 48 reply,
                 \<lparr>incoming = rest, outgoing = out @ [handshakeMessage (InfoHash info)]\<rparr>))"
proof -
  have a: "length (handshakeMessage (digest_bytes d)) = 68"
    by (simp add: length_handshakeMessage length_digest_bytes)
  have b: "take 20 (handshakeMessage ih) = CHR 0x13 # ''BitTorrent protocol''"
    "take 8 (drop 20 (handshakeMessage ih)) = ''00000000''"
    "take 8 (drop 20 (handshakeMessage ih))
       \<noteq> [CHR 0x00, CHR 0x00, CHR 0x00, CHR 0x00, CHR 0x00, CHR 0x00, CHR 0x00, CHR 0x00]"
    "hd (drop 20 (handshakeMessage ih)) = CHR 0x30"
    "drop 28 (handshakeMessage ih) = ih @ ''00112233445566778899''"
    by (simp_all add: handshakeMessage_def protocolStrLengthStr_def protocolStr_def
        reservedBytesStr_def peerID_def)
  from a b handshake_reply show ?thesis by blast
qed

theorem C5_witness:
  "parseToInfo (of_nat \<circ> length)
       ''d8:announce1:a4:infod6:lengthi1e12:piece lengthi1e6:pieces0:ee''
     = Inr \<lparr>TrackerURL = ''a'', Length = 1, InfoHash = digest_bytes 41,
            PieceLength = 1, PieceHashes = []\<rparr>
   \<and> length (CHR 0x13 # ''BitTorrent protocol00000000AAAAAAAAAAAAAAAAAAAA-remote-peer-id-xyz-'') = 68
   \<and> handshake (of_nat \<circ> length)
        \<lparr>incoming = (CHR 0x13 # ''BitTorrent protocol00000000AAAAAAAAAAAAAAAAAAAA-remote-peer-id-xyz-'') @ [],
         outgoing = []\<rparr>
        ''d8:announce1:a4:infod6:lengthi1e12:piece lengthi1e6:pieces0:ee''
     = Inr (''-remote-peer-id-xyz-'',
            \<lparr>incoming = [], outgoing = [] @ [handshakeMessage (digest_bytes 41)]\<rparr>)"
proof -
  let ?reply = "CHR 0x13 # ''BitTorrent protocol00000000AAAAAAAAAAAAAAAAAAAA-remote-peer-id-xyz-''"
  let ?info = "\<lparr>TrackerURL = ''a'', Length = 1, InfoHash = digest_bytes 41,
            PieceLength = 1, PieceHashes = []\<rparr>"
  have l: "length ?reply = 68" by simp
  have d: "drop 48 ?reply = ''-remote-peer-id-xyz-''" by simp
  from C5_handshake_layout[where sha1Sum = "of_nat \<circ> length"
      and content = "''d8:announce1:a4:infod6:lengthi1e12:piece lengthi1e6:pieces0:ee''"
      and info = ?info and reply = ?reply and rest = "[]" and out = "[]",
      THEN conjunct2, THEN conjunct2, THEN conjunct2, THEN conjunct2, THEN conjunct2,
      THEN conjunct2, rule_format] parse_torrent_good l
  have "handshake (of_nat \<circ> length) \<lparr>incoming = ?reply @ [], outgoing = []\<rparr>
        ''d8:announce1:a4:infod6:lengthi1e12:piece lengthi1e6:pieces0:ee''
     = Inr (drop 48 ?reply,
            \<lparr>incoming = [], outgoing = [] @ [handshakeMessage (InfoHash ?info)]\<rparr>)"
    by blast
  with parse_torrent_good l d show ?thesis by simp
qed

subsection \<open>Size of the payload buffer\<close>







section \<open>Properties of the piece downloader\<close>

subsection \<open>Block requests\<close>

lemma sendPeerMessage_conn:
  "incoming (sendPeerMessage c ident payload) = incoming c"
  "outgoing (sendPeerMessage c ident payload)
     = outgoing c @ [be_PutUint32 (word_of_nat (messageIDLen + length payload)) @ [ident] @ payload]"
  by (simp_all add: sendPeerMessage_def conn_Write_def)

lemma requestLoop_general:
  assumes "0 \<le> off" "off < pl" "pl \<le> 2 ^ 62"
  shows "\<exists>c' n msgs. requestLoop c idx pl off cnt = Some (c', cnt + n)
           \<and> incoming c' = incoming c
           \<and> outgoing c' = outgoing (sendPeerMessage c request (requestPayload idx (off + blockSize))) @ msgs
           \<and> int (length msgs) = n"
  using assms
proof (induction "nat (pl - off)" arbitrary: off c cnt rule: less_induct)
  case less
  have w: "wrap64 (off + blockSize) = off + blockSize"
    using less.prems by (intro wrap64_id) (simp_all add: blockSize_def)
  show ?case
  proof (cases "pl \<le> off + blockSize")
    case True
    then have "requestLoop c idx pl off cnt
        = Some (sendPeerMessage c request (requestPayload idx (off + blockSize)), cnt + 0)"
      by (subst requestLoop.simps) (simp add: w)
    then show ?thesis by (auto simp: sendPeerMessage_conn)
  next
    case False
    let ?c1 = "sendPeerMessage c request (requestPayload idx (off + blockSize))"
    have step: "requestLoop c idx pl off cnt
        = requestLoop ?c1 idx pl (off + blockSize) (cnt + 1)"
      using False by (subst requestLoop.simps) (simp add: w)
    have "nat (pl - (off + blockSize)) < nat (pl - off)"
      using False less.prems by (simp add: blockSize_def)
    from less.hyps[OF this, of ?c1 "cnt + 1"] False less.prems
    obtain c' n msgs where r: "requestLoop ?c1 idx pl (off + blockSize) (cnt + 1) = Some (c', cnt + 1 + n)"
      "incoming c' = incoming ?c1"
      "outgoing c' = outgoing (sendPeerMessage ?c1 request
          (requestPayload idx (off + blockSize + blockSize))) @ msgs"
      "int (length msgs) = n"
      by (auto simp: blockSize_def)
    let ?m = "be_PutUint32 (word_of_nat (messageIDLen
        + length (requestPayload idx (off + blockSize + blockSize)))) @ [request]
        @ requestPayload idx (off + blockSize + blockSize)"
    have "requestLoop c idx pl off cnt = Some (c', cnt + (1 + n))"
      using step r(1) by (simp add: add.assoc)
    moreover have "incoming c' = incoming c" using r(2) by (simp add: sendPeerMessage_conn)
    moreover have "outgoing c' = outgoing ?c1 @ (?m # msgs)"
      using r(3) by (simp add: sendPeerMessage_conn)
    moreover have "int (length (?m # msgs)) = 1 + n" using r(4) by simp
    ultimately show ?thesis by blast
  qed
qed

lemma of_char_char_of_word:
  "(of_char (char_of (unat (x :: 32 word))) :: 32 word) = take_bit 8 x"
proof -
  have "(of_char (char_of (unat x)) :: 32 word) = of_nat (of_char (char_of (unat x)))"
    by (simp only: of_nat_of_char)
  also have "\<dots> = of_nat (take_bit 8 (unat x))"
    by (simp add: of_char_of take_bit_eq_mod)
  also have "\<dots> = of_nat (unat (take_bit 8 x))"
    by (simp add: unsigned_take_bit_eq)
  also have "\<dots> = take_bit 8 x" by simp
  finally show ?thesis .
qed

lemma be_roundtrip: "be_Uint32 (be_PutUint32 w) = w"
proof -
  have "push_bit 24 (take_bit 8 (drop_bit 24 w)) OR push_bit 16 (take_bit 8 (drop_bit 16 w)) OR
     push_bit 8 (take_bit 8 (drop_bit 8 w)) OR take_bit 8 w = w"
  proof (rule bit_word_eqI)
    fix n assume "n < LENGTH(32)"
    then have n: "n < 32" by simp
    consider "n < 8" | "8 \<le> n" "n < 16" | "16 \<le> n" "n < 24" | "24 \<le> n" "n < 32"
      using n by linarith
    then show "bit (push_bit 24 (take_bit 8 (drop_bit 24 w)) OR push_bit 16 (take_bit 8 (drop_bit 16 w)) OR
     push_bit 8 (take_bit 8 (drop_bit 8 w)) OR take_bit 8 w) n = bit w n"
      by cases (auto simp: bit_simps)
  qed
  then show ?thesis
    by (simp add: be_Uint32_def be_PutUint32_def of_char_char_of_word)
qed

lemma length_be_PutUint32: "length (be_PutUint32 w) = 4"
  by (simp add: be_PutUint32_def)

lemma block_begins_request:
  "block_begins (msgs @ [be_PutUint32 l @ [ident] @ requestPayload idx off])
     = block_begins msgs @ [unat (word_of_int off :: 32 word)]"
  by (simp add: block_begins_def requestPayload_def length_be_PutUint32 be_roundtrip)

text \<open>
  Claim C1 at the piece lengths 32768, 16384 and 1.  For 32768 the loop writes two
  requests, with \<open>begin\<close> 16384 and 32768, and leaves \<open>count\<close> at 1; for 16384 and for 1 it
  writes one request, with \<open>begin\<close> 16384, and leaves \<open>count\<close> at 0.  No request has
  \<open>begin\<close> 0, \<open>count\<close> is one less than the number of requests, and the loop reads nothing
  from the connection.
\<close>

theorem C1_requests_at_32768:
  "requestLoop c idx 32768 0 0
     = Some (sendPeerMessage (sendPeerMessage c request (requestPayload idx 16384))
               request (requestPayload idx 32768), 1)
   \<and> requestLoop c idx 16384 0 0
     = Some (sendPeerMessage c request (requestPayload idx 16384), 0)
   \<and> requestLoop c idx 1 0 0
     = Some (sendPeerMessage c request (requestPayload idx 16384), 0)
   \<and> block_begins (outgoing (sendPeerMessage (sendPeerMessage \<lparr>incoming = inc, outgoing = []\<rparr>
         request (requestPayload idx 16384)) request (requestPayload idx 32768)))
       = [16384, 32768]
   \<and> incoming (sendPeerMessage (sendPeerMessage \<lparr>incoming = inc, outgoing = []\<rparr>
         request (requestPayload idx 16384)) request (requestPayload idx 32768)) = inc"
proof -
  have a: "requestLoop c idx 32768 0 0
     = Some (sendPeerMessage (sendPeerMessage c request (requestPayload idx 16384))
               request (requestPayload idx 32768), 1)"
    by (simp add: requestLoop.simps blockSize_def wrap64_def)
  have b: "requestLoop c idx 16384 0 0
     = Some (sendPeerMessage c request (requestPayload idx 16384), 0)"
    by (simp add: requestLoop.simps blockSize_def wrap64_def)
  have c: "requestLoop c idx 1 0 0
     = Some (sendPeerMessage c request (requestPayload idx 16384), 0)"
    by (simp add: requestLoop.simps blockSize_def wrap64_def)
  have d: "block_begins (outgoing (sendPeerMessage (sendPeerMessage \<lparr>incoming = inc, outgoing = []\<rparr>
         request (requestPayload idx 16384)) request (requestPayload idx 32768)))
       = [16384, 32768]"
    using block_begins_request[of "[]" _ request idx 16384]
      block_begins_request[of "[be_PutUint32 (word_of_nat (messageIDLen + length (requestPayload idx 16384))) @ [request] @ requestPayload idx 16384]" _ request idx 32768]
    by (simp add: sendPeerMessage_conn block_begins_def)
  have e: "incoming (sendPeerMessage (sendPeerMessage \<lparr>incoming = inc, outgoing = []\<rparr>
         request (requestPayload idx 16384)) request (requestPayload idx 32768)) = inc"
    by (simp add: sendPeerMessage_conn)
  from a b c d e show ?thesis by blast
qed

subsection \<open>Integrity check\<close>

lemma length_fmt_hex: "length (fmt_hex s) = 2 * length s"
  by (induction s) (simp_all add: fmt_hex_def)

lemma go_slice_length:
  "go_slice s lo hi = Inr sl \<Longrightarrow> length sl = nat hi - nat lo"
  by (auto simp: go_slice_def split: if_splits)

lemma pieceHashesLoop_length:
  "pieceHashesLoop pieceStr i hashes = Inr h \<Longrightarrow> length hashes mod 41 = 0 \<Longrightarrow>
     length h mod 41 = 0"
proof (induction pieceStr i hashes rule: pieceHashesLoop.induct)
  case (1 pieceStr i hashes)
  show ?case
  proof (cases "i < length pieceStr")
    case False
    with 1(2,3) show ?thesis by (simp add: pieceHashesLoop.simps)
  next
    case True
    with 1(2) obtain sl where sl: "go_slice pieceStr (int i) (int (i + eachPieceSize)) = Inr sl"
      and rest: "pieceHashesLoop pieceStr (i + eachPieceSize) (hashes @ fmt_hex sl @ [CHR 0x0A]) = Inr h"
      by (subst (asm) pieceHashesLoop.simps) (auto split: sum.splits)
    have "length sl = 20" using go_slice_length[OF sl] by (simp add: eachPieceSize_def)
    then have "length (hashes @ fmt_hex sl @ [CHR 0x0A]) = length hashes + 41"
      by (simp add: length_fmt_hex)
    with 1(3) have "length (hashes @ fmt_hex sl @ [CHR 0x0A]) mod 41 = 0" by simp
    from 1(1)[OF True sl rest this] show ?thesis .
  qed
qed

lemma parseToInfo_hashes_length:
  "parseToInfo sha1Sum content = Inr info \<Longrightarrow> length (PieceHashes info) mod 41 = 0"
  by (auto simp: parseToInfo_def split: sum.splits dest!: pieceHashesLoop_length)

lemma verifyPiece_fails:
  "length (PieceHashes info) mod 41 = 0 \<Longrightarrow>
     verifyPiece sha1Sum info combinedBlock = Inl ErrInvalidPieceHash"
proof -
  assume a: "length (PieceHashes info) mod 41 = 0"
  have "length (digest_bytes (sha1Sum combinedBlock)) mod 41 \<noteq> 0"
    by (simp add: length_digest_bytes)
  with a have "digest_bytes (sha1Sum combinedBlock) \<noteq> PieceHashes info" by metis
  then show ?thesis by (simp add: verifyPiece_def)
qed

text \<open>
  Claim C2 on the check of \<open>download_piece\<close>: it compares the 20 raw bytes of the digest
  with \<open>info.PieceHashes\<close>, the hexadecimal listing of all piece digests (41 bytes per
  piece), so it fails for every torrent, every peer and every assembled buffer, and nothing
  is ever written; in particular it fails when \<open>PieceHashes\<close> lists exactly the digest of
  the assembled buffer.
\<close>

theorem C2_integrity_check_always_fails:
  "download_piece sha1Sum content pieceIdx c \<noteq> Some (Inr out)
   \<and> verifyPiece sha1Sum
        \<lparr>TrackerURL = url, Length = len, InfoHash = ih, PieceLength = int (length buf),
         PieceHashes = fmt_hex (digest_bytes (sha1Sum buf)) @ [CHR 0x0A]\<rparr> buf
       = Inl ErrInvalidPieceHash"
proof -
  have a: "download_piece sha1Sum content pieceIdx c \<noteq> Some (Inr out)"
  proof
    assume s: "download_piece sha1Sum content pieceIdx c = Some (Inr out)"
    then obtain info buf where i: "parseToInfo sha1Sum content = Inr info"
      and v: "verifyPiece sha1Sum info buf = Inr out"
      by (auto simp: download_piece_def split: sum.splits option.splits prod.splits)
    from verifyPiece_fails[OF parseToInfo_hashes_length[OF i]] v show False by simp
  qed
  have b: "verifyPiece sha1Sum
        \<lparr>TrackerURL = url, Length = len, InfoHash = ih, PieceLength = int (length buf),
         PieceHashes = fmt_hex (digest_bytes (sha1Sum buf)) @ [CHR 0x0A]\<rparr> buf
       = Inl ErrInvalidPieceHash"
    by (rule verifyPiece_fails) (simp add: length_fmt_hex length_digest_bytes)
  from a b show ?thesis by blast
qed

end
